theory Spec2Isabelle
  imports Main "HOL-Library.Product_Lexorder"
begin

section \<open>The Minesweeper solver of \<open>minesweeper.py\<close>\<close>

text \<open>
  The classes \<open>Sentence\<close> and \<open>MinesweeperAI\<close> are embedded as records with explicit
  state passing. A cell is a pair of Python integers. Python sets are HOL sets; where the
  source iterates over a set, the model iterates over its sorted enumeration, and the
  lemmas \<open>fold_mark_safe\<close> and \<open>fold_mark_mine\<close> show that the order is immaterial.
  The method \<open>Sentence.mark_mine\<close> is \<open>Sentence_mark_mine\<close>, the method
  \<open>MinesweeperAI.mark_mine\<close> is \<open>mark_mine\<close>, and likewise for \<open>mark_safe\<close>.
\<close>

subsection \<open>Class \<open>Sentence\<close>\<close>

type_synonym cell = "int \<times> int"

record sentence =
  cells :: "cell set"
  count :: int

definition Sentence :: "cell set \<Rightarrow> int \<Rightarrow> sentence" where
  "Sentence cs n = \<lparr>cells = cs, count = n\<rparr>"

definition known_mines :: "sentence \<Rightarrow> cell set" where
  "known_mines s = (if int (card (cells s)) = count s \<and> count s > 0 then cells s else {})"

definition known_safes :: "sentence \<Rightarrow> cell set" where
  "known_safes s = (if count s = 0 then cells s else {})"

definition Sentence_mark_mine :: "sentence \<Rightarrow> cell \<Rightarrow> sentence" where
  "Sentence_mark_mine s c =
     (if c \<in> cells s then s\<lparr>cells := cells s - {c}, count := count s - 1\<rparr> else s)"

definition Sentence_mark_safe :: "sentence \<Rightarrow> cell \<Rightarrow> sentence" where
  "Sentence_mark_safe s c = (if c \<in> cells s then s\<lparr>cells := cells s - {c}\<rparr> else s)"

subsection \<open>Class \<open>MinesweeperAI\<close>\<close>

record ai =
  height :: int
  width :: int
  moves_made :: "cell set"
  mines :: "cell set"
  safes :: "cell set"
  knowledge :: "sentence list"

definition init :: "int \<Rightarrow> int \<Rightarrow> ai" where
  "init h w = \<lparr>height = h, width = w, moves_made = {}, mines = {}, safes = {}, knowledge = []\<rparr>"

definition mark_mine :: "ai \<Rightarrow> cell \<Rightarrow> ai" where
  "mark_mine st c =
     st\<lparr>mines := insert c (mines st),
        knowledge := map (\<lambda>s. Sentence_mark_mine s c) (knowledge st)\<rparr>"

definition mark_safe :: "ai \<Rightarrow> cell \<Rightarrow> ai" where
  "mark_safe st c =
     st\<lparr>safes := insert c (safes st),
        knowledge := map (\<lambda>s. Sentence_mark_safe s c) (knowledge st)\<rparr>"

text \<open>
  The two nested \<open>range\<close> loops of \<open>add_knowledge\<close> visit the 3 by 3 block around the
  cell row by row; \<open>scan\<close> is the body of the inner loop, acting on the local \<open>count\<close>
  and the list \<open>undetermined_cells\<close>.
\<close>

definition neighbourhood :: "cell \<Rightarrow> cell list" where
  "neighbourhood c =
     concat (map (\<lambda>i. map (\<lambda>j. (i, j)) [snd c - 1 .. snd c + 1]) [fst c - 1 .. fst c + 1])"

definition in_bounds :: "ai \<Rightarrow> cell \<Rightarrow> bool" where
  "in_bounds st n \<longleftrightarrow> 0 \<le> fst n \<and> fst n < height st \<and> 0 \<le> snd n \<and> snd n < width st"

definition scan :: "ai \<Rightarrow> cell \<Rightarrow> cell \<Rightarrow> int \<times> cell list \<Rightarrow> int \<times> cell list" where
  "scan st c n acc =
     (if n = c then acc
      else if n \<in> mines st then (fst acc - 1, snd acc)
      else if in_bounds st n \<and> n \<notin> safes st \<and> n \<notin> moves_made st
           then (fst acc, snd acc @ [n])
      else acc)"

text \<open>Lines 197 to 224: record the move, mark the cell safe, append the new sentence.\<close>

definition observe :: "ai \<Rightarrow> cell \<Rightarrow> int \<Rightarrow> ai" where
  "observe st c n =
     (let st1 = st\<lparr>moves_made := insert c (moves_made st)\<rparr>;
          st2 = mark_safe st1 c;
          acc = fold (scan st2 c) (neighbourhood c) (n, []);
          new_sentence = Sentence (set (snd acc)) (fst acc)
      in st2\<lparr>knowledge := knowledge st2 @ [new_sentence]\<rparr>)"

text \<open>
  Lines 228 to 234: the body of the extraction loop for the sentence at index \<open>i\<close>. The
  sets returned by \<open>known_safes\<close> and \<open>known_mines\<close> are copied before the marking
  loops run, and \<open>known_mines\<close> is read after the safe cells were marked.
\<close>

definition extract_sentence :: "ai \<Rightarrow> nat \<Rightarrow> ai" where
  "extract_sentence st i =
     (let st1 = (if known_safes (knowledge st ! i) \<noteq> {}
                 then fold (\<lambda>c s. mark_safe s c)
                        (sorted_list_of_set (known_safes (knowledge st ! i))) st
                 else st);
          st2 = (if known_mines (knowledge st1 ! i) \<noteq> {}
                 then fold (\<lambda>c s. mark_mine s c)
                        (sorted_list_of_set (known_mines (knowledge st1 ! i))) st1
                 else st1)
      in st2)"

text \<open>
  The extraction loop never appends to \<open>knowledge\<close> (see \<open>length_extract_sentence\<close>),
  so it visits the indices below the length the list has when the loop starts.
\<close>

definition extraction :: "ai \<Rightarrow> ai" where
  "extraction st = fold (\<lambda>i s. extract_sentence s i) [0..<length (knowledge st)] st"

text \<open>
  Lines 237 to 253. The two \<open>for\<close> loops run over the list they append to, and a Python
  list iterator compares its index with the current length at every step, so appended
  sentences are visited in the same pass. The state of the loops is the list, the index
  \<open>i\<close> of \<open>sentence\<close>, the index \<open>j\<close> of \<open>possible_subset\<close> and the flag
  \<open>new_inference_made\<close>. The result \<open>None\<close> stands for a loop that never exits.
\<close>

definition new_inference :: "sentence \<Rightarrow> sentence \<Rightarrow> sentence" where
  "new_inference s p = Sentence (cells s - cells p) (count s - count p)"

partial_function (option) subset_loop ::
  "sentence list \<Rightarrow> nat \<Rightarrow> nat \<Rightarrow> bool \<Rightarrow> sentence list option" where
  "subset_loop ks i j made =
     (if i < length ks then
        if j < length ks then
          if cells (ks ! j) \<subseteq> cells (ks ! i) then
            if count (ks ! i) \<noteq> 0 \<and> count (ks ! j) \<noteq> 0 \<and> ks ! i \<noteq> ks ! j then
              if new_inference (ks ! i) (ks ! j) \<notin> set ks
              then subset_loop (ks @ [new_inference (ks ! i) (ks ! j)]) i (j + 1) True
              else subset_loop ks i (j + 1) made
            else subset_loop ks i (j + 1) made
          else subset_loop ks i (j + 1) made
        else subset_loop ks (i + 1) 0 made
      else if made then subset_loop ks 0 0 False
      else Some ks)"

declare subset_loop.simps [code]

definition add_knowledge :: "ai \<Rightarrow> cell \<Rightarrow> int \<Rightarrow> ai option" where
  "add_knowledge st c n =
     (let st1 = extraction (observe st c n)
      in map_option (\<lambda>ks. st1\<lparr>knowledge := ks\<rparr>) (subset_loop (knowledge st1) 0 0 False))"

text \<open>
  \<open>make_safe_move\<close> iterates over the set \<open>safes\<close> in an order the language does not
  fix; the order is the parameter \<open>order\<close>, a list enumerating \<open>safes\<close>. The method
  assigns to no attribute, so the state is returned as it came.
\<close>

definition make_safe_move :: "cell list \<Rightarrow> ai \<Rightarrow> cell option \<times> ai" where
  "make_safe_move order st = (find (\<lambda>c. c \<notin> moves_made st) order, st)"

text \<open>
  \<open>make_random_move\<close>: the draw of \<open>random.choice\<close> is the parameter \<open>r\<close>, an index
  into \<open>possible_moves\<close>.
\<close>

definition possible_moves :: "ai \<Rightarrow> cell list" where
  "possible_moves st =
     filter (\<lambda>n. n \<notin> moves_made st \<and> n \<notin> mines st)
       (concat (map (\<lambda>i. map (\<lambda>j. (i, j)) [0 .. width st - 1]) [0 .. height st - 1]))"

definition make_random_move :: "nat \<Rightarrow> ai \<Rightarrow> cell option \<times> ai" where
  "make_random_move r st =
     (if length (possible_moves st) > 0
      then (Some (possible_moves st ! (r mod length (possible_moves st))), st)
      else (None, st))"

subsection \<open>Class \<open>Minesweeper\<close>\<close>

text \<open>
  Of the game only \<open>nearby_mines\<close> is needed: it is where the counts come from that a
  driver passes to \<open>add_knowledge\<close>. The attribute \<open>board\<close> is the set of the cells
  \<open>(i, j)\<close> with \<open>board[i][j]\<close> true; \<open>nearby_step\<close> is the body of the inner loop.
\<close>

definition nearby_step :: "int \<Rightarrow> int \<Rightarrow> cell set \<Rightarrow> cell \<Rightarrow> cell \<Rightarrow> int \<Rightarrow> int" where
  "nearby_step h w board c n k =
     (if n = c then k
      else if 0 \<le> fst n \<and> fst n < h \<and> 0 \<le> snd n \<and> snd n < w
           then (if n \<in> board then k + 1 else k)
      else k)"

definition nearby_mines :: "int \<Rightarrow> int \<Rightarrow> cell set \<Rightarrow> cell \<Rightarrow> int" where
  "nearby_mines h w board c = fold (nearby_step h w board c) (neighbourhood c) 0"

subsection \<open>Notions used in the statements\<close>

text \<open>
  \<open>adjacent c n\<close>: \<open>n\<close> is one of the eight cells around \<open>c\<close>, in or out of the grid.
\<close>

definition adjacent :: "cell \<Rightarrow> cell \<Rightarrow> bool" where
  "adjacent c n \<longleftrightarrow> n \<noteq> c \<and> \<bar>fst n - fst c\<bar> \<le> 1 \<and> \<bar>snd n - snd c\<bar> \<le> 1"

text \<open>
  The sentence of an observation in the words of the specification: the cells are the
  neighbours in the grid that are not known mines, not known safe and not played, and
  the count is the given count less the number of neighbours that are known mines.
\<close>

definition spec_observation :: "ai \<Rightarrow> cell \<Rightarrow> int \<Rightarrow> sentence" where
  "spec_observation st c n =
     \<lparr>cells = {x. adjacent c x \<and> in_bounds st x \<and> x \<notin> mines st \<and> x \<notin> safes st \<and>
                 x \<notin> moves_made st},
      count = n - int (card {x. adjacent c x \<and> x \<in> mines st})\<rparr>"

text \<open>The test of the last branch of the neighbour loop, with the two branches before it.\<close>

definition undetermined :: "ai \<Rightarrow> cell \<Rightarrow> cell \<Rightarrow> bool" where
  "undetermined st c n \<longleftrightarrow>
     n \<noteq> c \<and> n \<notin> mines st \<and> in_bounds st n \<and> n \<notin> safes st \<and> n \<notin> moves_made st"

text \<open>The tests of lines 243 to 246 for \<open>sentence\<close> \<open>s\<close> and \<open>possible_subset\<close> \<open>p\<close>.\<close>

definition infers :: "sentence list \<Rightarrow> sentence \<Rightarrow> sentence \<Rightarrow> bool" where
  "infers ks s p \<longleftrightarrow>
     cells p \<subseteq> cells s \<and> count s \<noteq> 0 \<and> count p \<noteq> 0 \<and> s \<noteq> p \<and> new_inference s p \<notin> set ks"

text \<open>A sequence of calls of \<open>add_knowledge\<close>, each on the state the one before returned.\<close>

fun run :: "ai \<Rightarrow> (cell \<times> int) list \<Rightarrow> ai option" where
  "run st [] = Some st"
| "run st ((c, n) # obs) =
     (case add_knowledge st c n of None \<Rightarrow> None | Some st' \<Rightarrow> run st' obs)"

text \<open>
  The states a driver can bring a solver of height \<open>h\<close> and width \<open>w\<close> into with the three
  public methods, when the observations it passes to \<open>add_knowledge\<close> satisfy \<open>ok\<close>.
\<close>

inductive reachable :: "(ai \<Rightarrow> cell \<Rightarrow> int \<Rightarrow> bool) \<Rightarrow> int \<Rightarrow> int \<Rightarrow> ai \<Rightarrow> bool"
  for ok :: "ai \<Rightarrow> cell \<Rightarrow> int \<Rightarrow> bool" and h :: int and w :: int where
  start: "reachable ok h w (init h w)"
| observation: "reachable ok h w st \<Longrightarrow> ok st c n \<Longrightarrow> add_knowledge st c n = Some st' \<Longrightarrow>
     reachable ok h w st'"
| safe_move: "reachable ok h w st \<Longrightarrow> set order = safes st \<Longrightarrow>
     reachable ok h w (snd (make_safe_move order st))"
| random_move: "reachable ok h w st \<Longrightarrow> reachable ok h w (snd (make_random_move r st))"

definition any_observation :: "ai \<Rightarrow> cell \<Rightarrow> int \<Rightarrow> bool" where
  "any_observation st c n \<longleftrightarrow> True"

definition unmined_observation :: "ai \<Rightarrow> cell \<Rightarrow> int \<Rightarrow> bool" where
  "unmined_observation st c n \<longleftrightarrow> in_bounds st c \<and> 0 \<le> n \<and> c \<notin> mines st"

text \<open>
  What marking does to one stored sentence: cells are removed, the count does not grow,
  and the sentence is untouched unless it lost a cell.
\<close>

definition shrunk :: "sentence \<Rightarrow> sentence \<Rightarrow> bool" where
  "shrunk s s' \<longleftrightarrow>
     cells s' \<subseteq> cells s \<and> count s' \<le> count s \<and> (cells s' = cells s \<longrightarrow> count s' = count s)"

definition persists :: "sentence list \<Rightarrow> ai \<Rightarrow> bool" where
  "persists ks st \<longleftrightarrow>
     length ks \<le> length (knowledge st) \<and> (\<forall>i < length ks. shrunk (ks ! i) (knowledge st ! i))"

definition cells_in_bounds :: "int \<Rightarrow> int \<Rightarrow> ai \<Rightarrow> bool" where
  "cells_in_bounds h w st \<longleftrightarrow>
     height st = h \<and> width st = w \<and>
     (\<forall>s \<in> set (knowledge st). \<forall>x \<in> cells s.
        0 \<le> fst x \<and> fst x < h \<and> 0 \<le> snd x \<and> snd x < w)"

text \<open>No stored sentence mentions a cell that is already known to be a mine or safe.\<close>

definition unresolved :: "ai \<Rightarrow> bool" where
  "unresolved st \<longleftrightarrow>
     mines st \<inter> safes st = {} \<and>
     (\<forall>s \<in> set (knowledge st). cells s \<inter> (mines st \<union> safes st) = {})"

text \<open>The tests of lines 243 and 244 alone, without the membership test of line 246.\<close>

definition eligible :: "sentence \<Rightarrow> sentence \<Rightarrow> bool" where
  "eligible s p \<longleftrightarrow> cells p \<subseteq> cells s \<and> count s \<noteq> 0 \<and> count p \<noteq> 0 \<and> s \<noteq> p"

text \<open>
  An observation that a game with the mines \<open>board\<close> gives: the cell is in the grid and
  not a mine, and the count is the one \<open>nearby_mines\<close> computes.
\<close>

definition truthful :: "cell set \<Rightarrow> ai \<Rightarrow> cell \<Rightarrow> int \<Rightarrow> bool" where
  "truthful board st c n \<longleftrightarrow>
     in_bounds st c \<and> c \<notin> board \<and> n = nearby_mines (height st) (width st) board c"

text \<open>
  The knowledge agrees with the mines \<open>board\<close>: known mines are mines in the grid, known
  safe cells are not mines, and every stored sentence has cells in the grid and states
  their number of mines.
\<close>

definition consistent :: "cell set \<Rightarrow> ai \<Rightarrow> bool" where
  "consistent board st \<longleftrightarrow>
     mines st \<subseteq> board \<and> (\<forall>x \<in> mines st. in_bounds st x) \<and>
     safes st \<inter> board = {} \<and> moves_made st \<subseteq> safes st \<and>
     (\<forall>s \<in> set (knowledge st).
        (\<forall>x \<in> cells s. in_bounds st x) \<and> count s = int (card (cells s \<inter> board)))"

text \<open>The counts of the sentences are the numbers of mines of \<open>board\<close> among their cells.\<close>

definition determined :: "cell set \<Rightarrow> cell set \<Rightarrow> sentence list \<Rightarrow> bool" where
  "determined G board ks \<longleftrightarrow>
     (\<forall>s \<in> set ks. cells s \<subseteq> G \<and> count s = int (card (cells s \<inter> board)))"

text \<open>
  \<open>examined st i\<close> is the state in which the extraction loop, started in \<open>st\<close>, reaches
  the sentence at index \<open>i\<close>; \<open>tracked st i st'\<close> relates \<open>st\<close> to a later state of the
  loop: the sentence at index \<open>i\<close> only lost cells that are now known mines or safe.
\<close>

definition examined :: "ai \<Rightarrow> nat \<Rightarrow> ai" where
  "examined st i = fold (\<lambda>i s. extract_sentence s i) [0..<i] st"

definition tracked :: "ai \<Rightarrow> nat \<Rightarrow> ai \<Rightarrow> bool" where
  "tracked st i st' \<longleftrightarrow>
     length (knowledge st') = length (knowledge st) \<and>
     safes st \<subseteq> safes st' \<and> mines st \<subseteq> mines st' \<and>
     cells (knowledge st' ! i) \<subseteq> cells (knowledge st ! i) \<and>
     cells (knowledge st ! i) - cells (knowledge st' ! i) \<subseteq> safes st' \<union> mines st' \<and>
     (cells (knowledge st' ! i) = cells (knowledge st ! i) \<longrightarrow> knowledge st' ! i = knowledge st ! i)"

text \<open>
  For the loop that does not end: \<open>pending ks i j\<close> says that the current pass, at the
  indices \<open>i\<close> and \<open>j\<close>, will still append a sentence; \<open>clashing ks\<close> describes the
  lists that two different counts for the empty cell set lead to.
\<close>

definition pending :: "sentence list \<Rightarrow> nat \<Rightarrow> nat \<Rightarrow> bool" where
  "pending ks i j \<longleftrightarrow>
     (\<exists>a b. a < length ks \<and> b < length ks \<and> (i < a \<or> (i = a \<and> j \<le> b)) \<and>
        infers ks (ks ! a) (ks ! b))"

definition clashing :: "sentence list \<Rightarrow> bool" where
  "clashing ks \<longleftrightarrow>
     (\<forall>s \<in> set ks. cells s = {} \<and> count s \<noteq> 0) \<and>
     \<lparr>cells = {}, count = 1\<rparr> \<in> set ks \<and> \<lparr>cells = {}, count = 2\<rparr> \<in> set ks"

section \<open>Marking cells\<close>

lemma Sentence_mark_mine_idem:
  "Sentence_mark_mine (Sentence_mark_mine s c) c = Sentence_mark_mine s c"
  by (simp add: Sentence_mark_mine_def)

lemma Sentence_mark_safe_idem:
  "Sentence_mark_safe (Sentence_mark_safe s c) c = Sentence_mark_safe s c"
  by (simp add: Sentence_mark_safe_def)

text \<open>
  Claim C8. Marking a cell as a mine twice in a row leaves the solver in the state that
  marking it once gives, and so does marking a cell as safe twice; this holds in every
  state, reachable or not.
\<close>

theorem confirmation_idempotent:
  "mark_mine (mark_mine st c) c = mark_mine st c \<and>
   mark_safe (mark_safe st c) c = mark_safe st c"
  by (simp add: mark_mine_def mark_safe_def Sentence_mark_mine_idem Sentence_mark_safe_idem
      comp_def)

section \<open>The sentence of an observation\<close>

lemma upto3: "[a - 1 .. a + 1] = [a - 1, a, a + (1::int)]"
proof -
  have "[a - 1 .. a + 1] = (a - 1) # [a .. a + 1]" by (subst upto.simps) simp
  also have "[a .. a + 1] = a # [a + 1 .. a + 1]" by (subst upto.simps) simp
  finally show ?thesis by simp
qed

lemma neighbourhood_eq:
  "neighbourhood (a, b) =
     [(a - 1, b - 1), (a - 1, b), (a - 1, b + 1),
      (a, b - 1), (a, b), (a, b + 1),
      (a + 1, b - 1), (a + 1, b), (a + 1, b + 1)]"
  by (simp add: neighbourhood_def upto3)

lemma distinct_neighbourhood: "distinct (neighbourhood c)"
  by (cases c) (simp add: neighbourhood_eq)

lemma set_neighbourhood:
  "set (neighbourhood c) = {n. \<bar>fst n - fst c\<bar> \<le> 1 \<and> \<bar>snd n - snd c\<bar> \<le> 1}"
  unfolding neighbourhood_def by (auto simp: image_iff)

lemma adjacent_neighbourhood: "adjacent c n \<longleftrightarrow> n \<in> set (neighbourhood c) \<and> n \<noteq> c"
  by (auto simp: adjacent_def set_neighbourhood)

lemma scan_eq:
  "scan st c x acc =
     (fst acc - (if x \<noteq> c \<and> x \<in> mines st then 1 else 0),
      snd acc @ (if undetermined st c x then [x] else []))"
  by (cases acc) (simp add: scan_def undetermined_def)

lemma card_mine_Cons:
  "x \<notin> set xs \<Longrightarrow>
   int (card {y \<in> set (x # xs). y \<noteq> c \<and> y \<in> M}) =
     (if x \<noteq> c \<and> x \<in> M then 1 else 0) + int (card {y \<in> set xs. y \<noteq> c \<and> y \<in> M})"
proof -
  assume nin: "x \<notin> set xs"
  have fin: "finite {y \<in> set xs. y \<noteq> c \<and> y \<in> M}" by simp
  have notin: "x \<notin> {y \<in> set xs. y \<noteq> c \<and> y \<in> M}" using nin by simp
  show ?thesis
  proof (cases "x \<noteq> c \<and> x \<in> M")
    case True
    then have "{y \<in> set (x # xs). y \<noteq> c \<and> y \<in> M} =
        insert x {y \<in> set xs. y \<noteq> c \<and> y \<in> M}"
      by auto
    then show ?thesis using True fin notin by simp
  next
    case False
    then have "{y \<in> set (x # xs). y \<noteq> c \<and> y \<in> M} = {y \<in> set xs. y \<noteq> c \<and> y \<in> M}"
      by auto
    then show ?thesis using False by simp
  qed
qed

lemma fold_scan:
  "distinct xs \<Longrightarrow>
   fold (scan st c) xs acc =
     (fst acc - int (card {x \<in> set xs. x \<noteq> c \<and> x \<in> mines st}),
      snd acc @ filter (undetermined st c) xs)"
proof (induction xs arbitrary: acc)
  case Nil
  then show ?case by simp
next
  case (Cons x xs)
  from Cons.prems have d: "distinct xs" and nin: "x \<notin> set xs" by simp_all
  have "fold (scan st c) (x # xs) acc = fold (scan st c) xs (scan st c x acc)" by simp
  also have "\<dots> =
      (fst (scan st c x acc) - int (card {y \<in> set xs. y \<noteq> c \<and> y \<in> mines st}),
       snd (scan st c x acc) @ filter (undetermined st c) xs)"
    by (rule Cons.IH[OF d])
  also have "\<dots> =
      (fst acc - int (card {y \<in> set (x # xs). y \<noteq> c \<and> y \<in> mines st}),
       snd acc @ filter (undetermined st c) (x # xs))"
    unfolding card_mine_Cons[OF nin] scan_eq by simp
  finally show ?case .
qed

lemma knowledge_observe:
  "knowledge (observe st c n) =
     map (\<lambda>s. Sentence_mark_safe s c) (knowledge st) @
     [\<lparr>cells = {x. adjacent c x \<and> in_bounds st x \<and> x \<notin> mines st \<and> x \<notin> safes st \<and>
                 x \<notin> moves_made st},
       count = n - int (card {x. adjacent c x \<and> x \<in> mines st})\<rparr>]"
proof -
  let ?st2 = "mark_safe (st\<lparr>moves_made := insert c (moves_made st)\<rparr>) c"
  have A: "{x \<in> set (neighbourhood c). x \<noteq> c \<and> x \<in> mines ?st2} =
      {x. adjacent c x \<and> x \<in> mines st}"
    by (auto simp: adjacent_neighbourhood mark_safe_def)
  have B: "set (filter (undetermined ?st2 c) (neighbourhood c)) =
      {x. adjacent c x \<and> in_bounds st x \<and> x \<notin> mines st \<and> x \<notin> safes st \<and>
          x \<notin> moves_made st}"
    by (auto simp: adjacent_neighbourhood undetermined_def mark_safe_def in_bounds_def)
  show ?thesis
    unfolding observe_def Let_def fold_scan[OF distinct_neighbourhood] fst_conv snd_conv A
      append_Nil B Sentence_def
    by (simp add: mark_safe_def)
qed

lemma observe_fields [simp]:
  "height (observe st c n) = height st"
  "width (observe st c n) = width st"
  "mines (observe st c n) = mines st"
  "safes (observe st c n) = insert c (safes st)"
  "moves_made (observe st c n) = insert c (moves_made st)"
  by (simp_all add: observe_def Let_def mark_safe_def)

text \<open>
  The state after the first part of \<open>add_knowledge\<close> (up to line 224): the cell is in
  \<open>moves_made\<close> and \<open>safes\<close>, the stored sentences have lost it, and one sentence is
  appended.
\<close>

lemma observe_eq:
  "observe st c n =
     st\<lparr>moves_made := insert c (moves_made st),
        safes := insert c (safes st),
        knowledge :=
          map (\<lambda>s. Sentence_mark_safe s c) (knowledge st) @
          [\<lparr>cells = {x. adjacent c x \<and> in_bounds st x \<and> x \<notin> mines st \<and> x \<notin> safes st \<and>
                      x \<notin> moves_made st},
            count = n - int (card {x. adjacent c x \<and> x \<in> mines st})\<rparr>]\<rparr>"
proof (rule ai.equality)
  let ?new = "\<lparr>cells = {x. adjacent c x \<and> in_bounds st x \<and> x \<notin> mines st \<and> x \<notin> safes st \<and>
                          x \<notin> moves_made st},
               count = n - int (card {x. adjacent c x \<and> x \<in> mines st})\<rparr>"
  show "knowledge (observe st c n) =
      knowledge (st\<lparr>moves_made := insert c (moves_made st), safes := insert c (safes st),
        knowledge := map (\<lambda>s. Sentence_mark_safe s c) (knowledge st) @ [?new]\<rparr>)"
    by (simp add: knowledge_observe)
qed (simp_all add: observe_def Let_def mark_safe_def)

section \<open>Choosing a safe move\<close>

text \<open>
  Claim C9. Whatever the order in which the set \<open>safes\<close> is iterated, \<open>make_safe_move\<close>
  returns the state unchanged; if some cell is in \<open>safes\<close> and not in \<open>moves_made\<close> it
  returns such a cell; and it returns \<open>None\<close> exactly when \<open>safes - moves_made\<close> is empty.
\<close>

theorem make_safe_move_contract:
  assumes "set order = safes st"
  shows "snd (make_safe_move order st) = st \<and>
         ((\<exists>c. c \<in> safes st \<and> c \<notin> moves_made st) \<longrightarrow>
            (\<exists>c. fst (make_safe_move order st) = Some c \<and> c \<in> safes st \<and>
                 c \<notin> moves_made st)) \<and>
         (fst (make_safe_move order st) = None \<longleftrightarrow> safes st - moves_made st = {})"
proof -
  have none: "find (\<lambda>c. c \<notin> moves_made st) order = None \<longleftrightarrow> safes st - moves_made st = {}"
    using assms by (auto simp: find_None_iff)
  have some: "find (\<lambda>c. c \<notin> moves_made st) order = Some c \<Longrightarrow>
      c \<in> safes st \<and> c \<notin> moves_made st" for c
    using assms by (auto simp: find_Some_iff)
  show ?thesis
    unfolding make_safe_move_def fst_conv snd_conv
    using none some by (cases "find (\<lambda>c. c \<notin> moves_made st) order") auto
qed

theorem make_safe_move_contract_witness:
  "set [(0, 0), (0, 1)] =
     safes ((init 2 2)\<lparr>safes := {(0, 0), (0, 1)}, moves_made := {(0, 0)}\<rparr>) \<and>
   make_safe_move [(0, 0), (0, 1)]
     ((init 2 2)\<lparr>safes := {(0, 0), (0, 1)}, moves_made := {(0, 0)}\<rparr>) =
     (Some (0, 1), (init 2 2)\<lparr>safes := {(0, 0), (0, 1)}, moves_made := {(0, 0)}\<rparr>)"
  using make_safe_move_contract[of "[(0, 0), (0, 1)]"
      "(init 2 2)\<lparr>safes := {(0, 0), (0, 1)}, moves_made := {(0, 0)}\<rparr>"]
  by (simp add: make_safe_move_def init_def)

section \<open>The subset loop\<close>

lemma subset_loop_unfold:
  "subset_loop ks i j made =
     (if i < length ks then
        if j < length ks then
          if infers ks (ks ! i) (ks ! j)
          then subset_loop (ks @ [new_inference (ks ! i) (ks ! j)]) i (j + 1) True
          else subset_loop ks i (j + 1) made
        else subset_loop ks (i + 1) 0 made
      else if made then subset_loop ks 0 0 False
      else Some ks)"
  by (subst subset_loop.simps) (simp add: infers_def)

lemma subset_loop_induct [consumes 1, case_names append skip next_sentence restart exit]:
  assumes run: "subset_loop ks i j made = Some r"
    and append: "\<And>ks i j made r. i < length ks \<Longrightarrow> j < length ks \<Longrightarrow>
        infers ks (ks ! i) (ks ! j) \<Longrightarrow>
        P (ks @ [new_inference (ks ! i) (ks ! j)]) i (j + 1) True r \<Longrightarrow> P ks i j made r"
    and skip: "\<And>ks i j made r. i < length ks \<Longrightarrow> j < length ks \<Longrightarrow>
        \<not> infers ks (ks ! i) (ks ! j) \<Longrightarrow> P ks i (j + 1) made r \<Longrightarrow> P ks i j made r"
    and next_sentence: "\<And>ks i j made r. i < length ks \<Longrightarrow> \<not> j < length ks \<Longrightarrow>
        P ks (i + 1) 0 made r \<Longrightarrow> P ks i j made r"
    and restart: "\<And>ks i j r. \<not> i < length ks \<Longrightarrow> P ks 0 0 False r \<Longrightarrow> P ks i j True r"
    and exit: "\<And>ks i j. \<not> i < length ks \<Longrightarrow> P ks i j False ks"
  shows "P ks i j made r"
proof (rule subset_loop.raw_induct[where P = P, OF _ run])
  fix loop ks i j made r
  assume IH: "\<And>ks i j made r. loop ks i j made = Some r \<Longrightarrow> P ks i j made r"
  assume body:
    "(if i < length ks then
        if j < length ks then
          if cells (ks ! j) \<subseteq> cells (ks ! i) then
            if count (ks ! i) \<noteq> 0 \<and> count (ks ! j) \<noteq> 0 \<and> ks ! i \<noteq> ks ! j then
              if new_inference (ks ! i) (ks ! j) \<notin> set ks
              then loop (ks @ [new_inference (ks ! i) (ks ! j)]) i (j + 1) True
              else loop ks i (j + 1) made
            else loop ks i (j + 1) made
          else loop ks i (j + 1) made
        else loop ks (i + 1) 0 made
      else if made then loop ks 0 0 False
      else Some ks) = Some r"
  have "(if i < length ks then
        if j < length ks then
          if infers ks (ks ! i) (ks ! j)
          then loop (ks @ [new_inference (ks ! i) (ks ! j)]) i (j + 1) True
          else loop ks i (j + 1) made
        else loop ks (i + 1) 0 made
      else if made then loop ks 0 0 False
      else Some ks) =
     (if i < length ks then
        if j < length ks then
          if cells (ks ! j) \<subseteq> cells (ks ! i) then
            if count (ks ! i) \<noteq> 0 \<and> count (ks ! j) \<noteq> 0 \<and> ks ! i \<noteq> ks ! j then
              if new_inference (ks ! i) (ks ! j) \<notin> set ks
              then loop (ks @ [new_inference (ks ! i) (ks ! j)]) i (j + 1) True
              else loop ks i (j + 1) made
            else loop ks i (j + 1) made
          else loop ks i (j + 1) made
        else loop ks (i + 1) 0 made
      else if made then loop ks 0 0 False
      else Some ks)"
    by (simp add: infers_def)
  from body[folded this] have body':
    "(if i < length ks then
        if j < length ks then
          if infers ks (ks ! i) (ks ! j)
          then loop (ks @ [new_inference (ks ! i) (ks ! j)]) i (j + 1) True
          else loop ks i (j + 1) made
        else loop ks (i + 1) 0 made
      else if made then loop ks 0 0 False
      else Some ks) = Some r" .
  show "P ks i j made r"
  proof (cases "i < length ks")
    case i: True
    show ?thesis
    proof (cases "j < length ks")
      case j: True
      show ?thesis
      proof (cases "infers ks (ks ! i) (ks ! j)")
        case True
        with body' i j have "loop (ks @ [new_inference (ks ! i) (ks ! j)]) i (j + 1) True = Some r"
          by simp
        from append[OF i j True IH[OF this]] show ?thesis .
      next
        case False
        with body' i j have "loop ks i (j + 1) made = Some r" by simp
        from skip[OF i j False IH[OF this]] show ?thesis .
      qed
    next
      case j: False
      with body' i have "loop ks (i + 1) 0 made = Some r" by simp
      from next_sentence[OF i j IH[OF this]] show ?thesis .
    qed
  next
    case i: False
    show ?thesis
    proof (cases made)
      case True
      with body' i have "loop ks 0 0 False = Some r" by simp
      from restart[OF i IH[OF this]] True show ?thesis by simp
    next
      case False
      with body' i have "r = ks" by simp
      with exit[OF i] False show ?thesis by simp
    qed
  qed
qed

lemma subset_loop_invariant:
  assumes run: "subset_loop ks i j made = Some ks'"
    and init: "I ks"
    and step: "\<And>ks s p. I ks \<Longrightarrow> s \<in> set ks \<Longrightarrow> p \<in> set ks \<Longrightarrow> infers ks s p \<Longrightarrow>
                 I (ks @ [new_inference s p])"
  shows "I ks'"
  using run init
proof (induction rule: subset_loop_induct)
  case (append ks i j made r)
  then show ?case using step[of ks "ks ! i" "ks ! j"] by simp
qed simp_all

lemma add_knowledge_SomeD:
  assumes "add_knowledge st c n = Some st'"
  obtains ks' where "subset_loop (knowledge (extraction (observe st c n))) 0 0 False = Some ks'"
    and "st' = (extraction (observe st c n))\<lparr>knowledge := ks'\<rparr>"
  using assms by (auto simp: add_knowledge_def Let_def)

section \<open>The marking loops and the extraction pass\<close>

lemma Sentence_mark_safe_eq: "Sentence_mark_safe s c = s\<lparr>cells := cells s - {c}\<rparr>"
  by (simp add: Sentence_mark_safe_def)

lemma Sentence_mark_mine_eq:
  "Sentence_mark_mine s c =
     s\<lparr>cells := cells s - {c}, count := count s - (if c \<in> cells s then 1 else 0)\<rparr>"
  by (simp add: Sentence_mark_mine_def)

lemma fold_mark_safe:
  "fold (\<lambda>c s. mark_safe s c) cs st =
     st\<lparr>safes := safes st \<union> set cs,
        knowledge := map (\<lambda>s. s\<lparr>cells := cells s - set cs\<rparr>) (knowledge st)\<rparr>"
proof (induction cs arbitrary: st)
  case Nil
  then show ?case by (simp add: map_idI)
next
  case (Cons c cs)
  have D: "cells s - {c} - set cs = cells s - insert c (set cs)" for s :: sentence by auto
  have "fold (\<lambda>c s. mark_safe s c) (c # cs) st = fold (\<lambda>c s. mark_safe s c) cs (mark_safe st c)"
    by simp
  also have "\<dots> = (mark_safe st c)\<lparr>safes := safes (mark_safe st c) \<union> set cs,
        knowledge := map (\<lambda>s. s\<lparr>cells := cells s - set cs\<rparr>) (knowledge (mark_safe st c))\<rparr>"
    by (rule Cons.IH)
  also have "\<dots> = st\<lparr>safes := safes st \<union> set (c # cs),
        knowledge := map (\<lambda>s. s\<lparr>cells := cells s - set (c # cs)\<rparr>) (knowledge st)\<rparr>"
    by (simp add: mark_safe_def Sentence_mark_safe_eq comp_def D)
  finally show ?case .
qed

lemma card_Int_insert:
  "int (card (A \<inter> insert c (set cs))) =
     (if c \<in> A then 1 else 0) + int (card ((A - {c}) \<inter> set cs))"
proof (cases "c \<in> A")
  case True
  have "A \<inter> insert c (set cs) = insert c ((A - {c}) \<inter> set cs)" using True by auto
  moreover have "finite ((A - {c}) \<inter> set cs)" by simp
  moreover have "c \<notin> (A - {c}) \<inter> set cs" by simp
  ultimately show ?thesis using True by simp
next
  case False
  then have "A \<inter> insert c (set cs) = (A - {c}) \<inter> set cs" by auto
  then show ?thesis using False by simp
qed

lemma fold_mark_mine:
  "fold (\<lambda>c s. mark_mine s c) cs st =
     st\<lparr>mines := mines st \<union> set cs,
        knowledge := map (\<lambda>s. s\<lparr>cells := cells s - set cs,
                               count := count s - int (card (cells s \<inter> set cs))\<rparr>) (knowledge st)\<rparr>"
proof (induction cs arbitrary: st)
  case Nil
  then show ?case by (simp add: map_idI)
next
  case (Cons c cs)
  have D: "cells s - {c} - set cs = cells s - insert c (set cs)" for s :: sentence by auto
  have "fold (\<lambda>c s. mark_mine s c) (c # cs) st = fold (\<lambda>c s. mark_mine s c) cs (mark_mine st c)"
    by simp
  also have "\<dots> = (mark_mine st c)\<lparr>mines := mines (mark_mine st c) \<union> set cs,
        knowledge := map (\<lambda>s. s\<lparr>cells := cells s - set cs,
                               count := count s - int (card (cells s \<inter> set cs))\<rparr>)
                       (knowledge (mark_mine st c))\<rparr>"
    by (rule Cons.IH)
  also have "\<dots> = st\<lparr>mines := mines st \<union> set (c # cs),
        knowledge := map (\<lambda>s. s\<lparr>cells := cells s - set (c # cs),
                               count := count s - int (card (cells s \<inter> set (c # cs)))\<rparr>)
                       (knowledge st)\<rparr>"
    by (simp add: mark_mine_def Sentence_mark_mine_eq comp_def D card_Int_insert)
  finally show ?case .
qed


lemma set_sorted_list_subset: "set (sorted_list_of_set A) \<subseteq> A"
  by (cases "finite A") (simp_all add: sorted_list_of_set.fold_insort_key.infinite)

lemma length_mark_safe [simp]: "length (knowledge (mark_safe st c)) = length (knowledge st)"
  by (simp add: mark_safe_def)

lemma length_mark_mine [simp]: "length (knowledge (mark_mine st c)) = length (knowledge st)"
  by (simp add: mark_mine_def)

lemma known_safes_mark_safe:
  "known_safes s - {c} \<subseteq> known_safes (Sentence_mark_safe s c)"
  by (auto simp: known_safes_def Sentence_mark_safe_def)

lemma known_mines_mark_mine:
  "known_mines s - {c} \<subseteq> known_mines (Sentence_mark_mine s c)"
proof (cases "c \<in> cells s \<and> int (card (cells s)) = count s \<and> count s > 0")
  case True
  then have fin: "finite (cells s)" using card.infinite by fastforce
  with True have c: "int (card (cells s - {c})) = count s - 1" by simp
  show ?thesis
  proof (cases "count s - 1 > 0")
    case True
    with c \<open>c \<in> cells s \<and> _\<close> show ?thesis
      by (simp add: known_mines_def Sentence_mark_mine_def)
  next
    case False
    with c have "card (cells s - {c}) = 0" by simp
    with fin have "cells s - {c} = {}" by simp
    then show ?thesis by (auto simp: known_mines_def)
  qed
next
  case False
  then show ?thesis by (auto simp: known_mines_def Sentence_mark_mine_def)
qed

lemma fold_mark_safe_invariant:
  assumes step: "\<And>st c. I st \<Longrightarrow> i < length (knowledge st) \<Longrightarrow>
      c \<in> known_safes (knowledge st ! i) \<Longrightarrow> I (mark_safe st c)"
  shows "I st \<Longrightarrow> i < length (knowledge st) \<Longrightarrow> distinct cs \<Longrightarrow>
      set cs \<subseteq> known_safes (knowledge st ! i) \<Longrightarrow> I (fold (\<lambda>c s. mark_safe s c) cs st)"
proof (induction cs arbitrary: st)
  case Nil
  then show ?case by simp
next
  case (Cons c cs)
  have I': "I (mark_safe st c)" using Cons.prems by (intro step) auto
  have "set cs \<subseteq> known_safes (knowledge st ! i) - {c}" using Cons.prems by auto
  also have "\<dots> \<subseteq> known_safes (knowledge (mark_safe st c) ! i)"
    using known_safes_mark_safe Cons.prems(2) by (simp add: mark_safe_def)
  finally show ?case using Cons.IH[OF I'] Cons.prems by simp
qed

lemma fold_mark_mine_invariant:
  assumes step: "\<And>st c. I st \<Longrightarrow> i < length (knowledge st) \<Longrightarrow>
      c \<in> known_mines (knowledge st ! i) \<Longrightarrow> I (mark_mine st c)"
  shows "I st \<Longrightarrow> i < length (knowledge st) \<Longrightarrow> distinct cs \<Longrightarrow>
      set cs \<subseteq> known_mines (knowledge st ! i) \<Longrightarrow> I (fold (\<lambda>c s. mark_mine s c) cs st)"
proof (induction cs arbitrary: st)
  case Nil
  then show ?case by simp
next
  case (Cons c cs)
  have I': "I (mark_mine st c)" using Cons.prems by (intro step) auto
  have "set cs \<subseteq> known_mines (knowledge st ! i) - {c}" using Cons.prems by auto
  also have "\<dots> \<subseteq> known_mines (knowledge (mark_mine st c) ! i)"
    using known_mines_mark_mine Cons.prems(2) by (simp add: mark_mine_def)
  finally show ?case using Cons.IH[OF I'] Cons.prems by simp
qed

lemma length_fold_mark_safe [simp]:
  "length (knowledge (fold (\<lambda>c s. mark_safe s c) cs st)) = length (knowledge st)"
  by (simp add: fold_mark_safe)

lemma length_fold_mark_mine [simp]:
  "length (knowledge (fold (\<lambda>c s. mark_mine s c) cs st)) = length (knowledge st)"
  by (simp add: fold_mark_mine)

lemma length_extract_sentence [simp]:
  "length (knowledge (extract_sentence st i)) = length (knowledge st)"
  by (simp add: extract_sentence_def Let_def)

lemma extract_sentence_invariant:
  assumes safe: "\<And>st c. I st \<Longrightarrow> i < length (knowledge st) \<Longrightarrow>
      c \<in> known_safes (knowledge st ! i) \<Longrightarrow> I (mark_safe st c)"
    and mine: "\<And>st c. I st \<Longrightarrow> i < length (knowledge st) \<Longrightarrow>
      c \<in> known_mines (knowledge st ! i) \<Longrightarrow> I (mark_mine st c)"
    and I: "I st" and i: "i < length (knowledge st)"
  shows "I (extract_sentence st i)"
proof -
  define st1 where "st1 = (if known_safes (knowledge st ! i) \<noteq> {}
                 then fold (\<lambda>c s. mark_safe s c)
                        (sorted_list_of_set (known_safes (knowledge st ! i))) st
                 else st)"
  have I1: "I st1"
    unfolding st1_def using fold_mark_safe_invariant[where I = I, OF safe I i] I
    by (simp add: set_sorted_list_subset)
  have i1: "i < length (knowledge st1)" unfolding st1_def using i by simp
  have "I (if known_mines (knowledge st1 ! i) \<noteq> {}
                 then fold (\<lambda>c s. mark_mine s c)
                        (sorted_list_of_set (known_mines (knowledge st1 ! i))) st1
                 else st1)"
    using fold_mark_mine_invariant[where I = I, OF mine I1 i1] I1
    by (simp add: set_sorted_list_subset)
  then show ?thesis unfolding extract_sentence_def Let_def st1_def .
qed

lemma fold_extract_invariant:
  assumes safe: "\<And>st i c. I st \<Longrightarrow> i < length (knowledge st) \<Longrightarrow>
      c \<in> known_safes (knowledge st ! i) \<Longrightarrow> I (mark_safe st c)"
    and mine: "\<And>st i c. I st \<Longrightarrow> i < length (knowledge st) \<Longrightarrow>
      c \<in> known_mines (knowledge st ! i) \<Longrightarrow> I (mark_mine st c)"
  shows "I st \<Longrightarrow> \<forall>i \<in> set is. i < length (knowledge st) \<Longrightarrow>
      I (fold (\<lambda>i s. extract_sentence s i) is st)"
proof (induction "is" arbitrary: st)
  case Nil
  then show ?case by simp
next
  case (Cons i "is")
  have "I (extract_sentence st i)"
    using Cons.prems by (intro extract_sentence_invariant[where I = I] safe mine) auto
  then show ?case using Cons.IH[of "extract_sentence st i"] Cons.prems by simp
qed

lemma extraction_invariant:
  assumes "I st"
    and "\<And>st i c. I st \<Longrightarrow> i < length (knowledge st) \<Longrightarrow>
      c \<in> known_safes (knowledge st ! i) \<Longrightarrow> I (mark_safe st c)"
    and "\<And>st i c. I st \<Longrightarrow> i < length (knowledge st) \<Longrightarrow>
      c \<in> known_mines (knowledge st ! i) \<Longrightarrow> I (mark_mine st c)"
  shows "I (extraction st)"
  unfolding extraction_def
  using assms by (intro fold_extract_invariant[where I = I]) auto

section \<open>Invariants of a call and of reachable states\<close>

lemma add_knowledge_invariant:
  assumes run: "add_knowledge st c n = Some st'"
    and obs: "I (observe st c n)"
    and safe: "\<And>st i x. I st \<Longrightarrow> i < length (knowledge st) \<Longrightarrow>
      x \<in> known_safes (knowledge st ! i) \<Longrightarrow> I (mark_safe st x)"
    and mine: "\<And>st i x. I st \<Longrightarrow> i < length (knowledge st) \<Longrightarrow>
      x \<in> known_mines (knowledge st ! i) \<Longrightarrow> I (mark_mine st x)"
    and app: "\<And>st s p. I st \<Longrightarrow> s \<in> set (knowledge st) \<Longrightarrow> p \<in> set (knowledge st) \<Longrightarrow>
      infers (knowledge st) s p \<Longrightarrow> I (st\<lparr>knowledge := knowledge st @ [new_inference s p]\<rparr>)"
  shows "I st'"
proof -
  define st1 where "st1 = extraction (observe st c n)"
  from run obtain ks' where loop: "subset_loop (knowledge st1) 0 0 False = Some ks'"
    and st': "st' = st1\<lparr>knowledge := ks'\<rparr>"
    unfolding st1_def by (rule add_knowledge_SomeD)
  have I1: "I st1" unfolding st1_def using obs safe mine by (rule extraction_invariant)
  have "I (st1\<lparr>knowledge := ks'\<rparr>)"
  proof (rule subset_loop_invariant[where I = "\<lambda>ks. I (st1\<lparr>knowledge := ks\<rparr>)", OF loop])
    show "I (st1\<lparr>knowledge := knowledge st1\<rparr>)" using I1 by simp
  next
    fix ks s p
    assume "I (st1\<lparr>knowledge := ks\<rparr>)" "s \<in> set ks" "p \<in> set ks" "infers ks s p"
    then show "I (st1\<lparr>knowledge := ks @ [new_inference s p]\<rparr>)"
      using app[of "st1\<lparr>knowledge := ks\<rparr>" s p] by simp
  qed
  then show ?thesis by (simp add: st')
qed

lemma reachable_invariant:
  assumes reach: "reachable ok h w st"
    and init: "I (init h w)"
    and step: "\<And>st c n st'. I st \<Longrightarrow> ok st c n \<Longrightarrow> add_knowledge st c n = Some st' \<Longrightarrow> I st'"
  shows "I st"
  using reach
proof (induction rule: reachable.induct)
  case start
  then show ?case by (rule init)
next
  case (observation st c n st')
  then show ?case using step by blast
next
  case (safe_move st order)
  then show ?case by (simp add: make_safe_move_def)
next
  case (random_move st r)
  then show ?case by (simp add: make_random_move_def)
qed

lemma subset_loop_single: "length ks = 1 \<Longrightarrow> subset_loop ks 0 0 False = Some ks"
  by (simp add: subset_loop_unfold infers_def)

lemma extraction_fields [simp]:
  "height (extraction st) = height st"
  "width (extraction st) = width st"
  "moves_made (extraction st) = moves_made st"
  "length (knowledge (extraction st)) = length (knowledge st)"
proof -
  have "height (extraction st) = height st \<and> width (extraction st) = width st \<and>
      moves_made (extraction st) = moves_made st \<and>
      length (knowledge (extraction st)) = length (knowledge st)"
    by (rule extraction_invariant[where I = "\<lambda>s. height s = height st \<and> width s = width st \<and>
      moves_made s = moves_made st \<and> length (knowledge s) = length (knowledge st)"])
      (simp_all add: mark_safe_def mark_mine_def)
  then show "height (extraction st) = height st" "width (extraction st) = width st"
    "moves_made (extraction st) = moves_made st"
    "length (knowledge (extraction st)) = length (knowledge st)"
    by simp_all
qed

lemma extraction_mono: "safes st \<subseteq> safes (extraction st) \<and> mines st \<subseteq> mines (extraction st)"
  by (rule extraction_invariant[where I = "\<lambda>s. safes st \<subseteq> safes s \<and> mines st \<subseteq> mines s"])
    (auto simp: mark_safe_def mark_mine_def)

lemma add_knowledge_fresh:
  "add_knowledge (init h w) c n = Some (extraction (observe (init h w) c n))"
proof -
  have "length (knowledge (extraction (observe (init h w) c n))) = 1"
    by (simp add: knowledge_observe init_def)
  then show ?thesis by (simp add: add_knowledge_def Let_def subset_loop_single)
qed

section \<open>Stored cells stay in the grid\<close>

lemma cells_in_bounds_step:
  assumes "cells_in_bounds h w st" and "add_knowledge st c n = Some st'"
  shows "cells_in_bounds h w st'"
  using assms(2)
proof (rule add_knowledge_invariant)
  show "cells_in_bounds h w (observe st c n)"
    using assms(1)
    by (auto simp: cells_in_bounds_def knowledge_observe Sentence_mark_safe_eq in_bounds_def)
next
  fix st i x assume "cells_in_bounds h w st"
  then show "cells_in_bounds h w (mark_safe st x)"
    by (auto simp: cells_in_bounds_def mark_safe_def Sentence_mark_safe_eq)
next
  fix st i x assume "cells_in_bounds h w st"
  then show "cells_in_bounds h w (mark_mine st x)"
    by (auto simp: cells_in_bounds_def mark_mine_def Sentence_mark_mine_eq)
next
  fix st s p assume "cells_in_bounds h w st" "s \<in> set (knowledge st)"
  then show "cells_in_bounds h w (st\<lparr>knowledge := knowledge st @ [new_inference s p]\<rparr>)"
    by (auto simp: cells_in_bounds_def new_inference_def Sentence_def)
qed

text \<open>
  Claim C10. In every state reachable with the public methods, whatever cells and counts
  are passed to \<open>add_knowledge\<close> (cells outside the grid included), every cell of every
  stored sentence lies in the grid.
\<close>

theorem stored_cells_in_bounds:
  assumes "reachable any_observation h w st" and "s \<in> set (knowledge st)" and "x \<in> cells s"
  shows "0 \<le> fst x \<and> fst x < h \<and> 0 \<le> snd x \<and> snd x < w"
proof -
  have "cells_in_bounds h w st"
    using assms(1)
  proof (rule reachable_invariant)
    show "cells_in_bounds h w (init h w)" by (simp add: cells_in_bounds_def init_def)
  qed (rule cells_in_bounds_step)
  with assms(2,3) show ?thesis unfolding cells_in_bounds_def by blast
qed

lemma eval_1x3_first:
  "add_knowledge (init 1 3) (0, 1) 1 =
     Some \<lparr>height = 1, width = 3, moves_made = {(0, 1)}, mines = {}, safes = {(0, 1)},
           knowledge = [\<lparr>cells = {(0, 0), (0, 2)}, count = 1\<rparr>]\<rparr>"
  by code_simp

lemma reach_1x3:
  "reachable any_observation 1 3
     \<lparr>height = 1, width = 3, moves_made = {(0, 1)}, mines = {}, safes = {(0, 1)},
      knowledge = [\<lparr>cells = {(0, 0), (0, 2)}, count = 1\<rparr>]\<rparr>"
  by (rule reachable.observation[OF reachable.start _ eval_1x3_first])
    (simp add: any_observation_def)

theorem stored_cells_in_bounds_witness:
  "reachable any_observation 1 3
     \<lparr>height = 1, width = 3, moves_made = {(0, 1)}, mines = {}, safes = {(0, 1)},
      knowledge = [\<lparr>cells = {(0, 0), (0, 2)}, count = 1\<rparr>]\<rparr> \<and>
   (0::int) \<le> fst (0::int, 2::int) \<and> fst (0::int, 2::int) < (1::int) \<and>
   (0::int) \<le> snd (0::int, 2::int) \<and> snd (0::int, 2::int) < (3::int)"
  using stored_cells_in_bounds[OF reach_1x3, of "\<lparr>cells = {(0, 0), (0, 2)}, count = 1\<rparr>" "(0, 2)"]
    reach_1x3
  by simp

section \<open>Stored sentences across a call\<close>

lemma shrunk_refl: "shrunk s s"
  by (simp add: shrunk_def)

lemma shrunk_trans: "shrunk a b \<Longrightarrow> shrunk b c \<Longrightarrow> shrunk a c"
  unfolding shrunk_def by (metis order_trans subset_antisym)

lemma shrunk_mark_safe: "shrunk s (Sentence_mark_safe s c)"
  by (auto simp: shrunk_def Sentence_mark_safe_def)

lemma shrunk_mark_mine: "shrunk s (Sentence_mark_mine s c)"
  by (auto simp: shrunk_def Sentence_mark_mine_def)

text \<open>
  The pairs of cell set and count are not kept: after a first observation of \<open>(0, 1)\<close> on
  a board of one row and three columns the sentence \<open>{(0, 0), (0, 2)} = 1\<close> is stored, and
  after the observation of \<open>(0, 0)\<close> no stored sentence has this value.
\<close>

theorem monotonicity_counterexample:
  "add_knowledge (init 1 3) (0, 1) 1 =
     Some \<lparr>height = 1, width = 3, moves_made = {(0, 1)}, mines = {}, safes = {(0, 1)},
           knowledge = [\<lparr>cells = {(0, 0), (0, 2)}, count = 1\<rparr>]\<rparr> \<and>
   add_knowledge
     \<lparr>height = 1, width = 3, moves_made = {(0, 1)}, mines = {}, safes = {(0, 1)},
      knowledge = [\<lparr>cells = {(0, 0), (0, 2)}, count = 1\<rparr>]\<rparr> (0, 0) 0 =
     Some \<lparr>height = 1, width = 3, moves_made = {(0, 0), (0, 1)}, mines = {(0, 2)},
           safes = {(0, 0), (0, 1)},
           knowledge = [\<lparr>cells = {}, count = 0\<rparr>, \<lparr>cells = {}, count = 0\<rparr>]\<rparr>"
  by code_simp

text \<open>
  Claim C7, as the code has it. Across a call of \<open>add_knowledge\<close> that returns, no stored
  sentence is removed or moved: the list does not get shorter, and the sentence at each
  old index keeps a subset of its cells and a count that is not larger, and is unchanged
  unless it lost a cell.
\<close>

theorem statements_persist:
  assumes "add_knowledge st c n = Some st'"
  shows "length (knowledge st) \<le> length (knowledge st') \<and>
         (\<forall>i < length (knowledge st).
            cells (knowledge st' ! i) \<subseteq> cells (knowledge st ! i) \<and>
            count (knowledge st' ! i) \<le> count (knowledge st ! i) \<and>
            (cells (knowledge st' ! i) = cells (knowledge st ! i) \<longrightarrow>
               knowledge st' ! i = knowledge st ! i))"
proof -
  have "persists (knowledge st) st'"
    using assms
  proof (rule add_knowledge_invariant)
    show "persists (knowledge st) (observe st c n)"
      by (simp add: persists_def knowledge_observe nth_append shrunk_mark_safe)
  next
    fix st2 i x assume "persists (knowledge st) st2"
    then show "persists (knowledge st) (mark_safe st2 x)"
      unfolding persists_def mark_safe_def using shrunk_trans[OF _ shrunk_mark_safe]
      by auto
  next
    fix st2 i x assume "persists (knowledge st) st2"
    then show "persists (knowledge st) (mark_mine st2 x)"
      unfolding persists_def mark_mine_def using shrunk_trans[OF _ shrunk_mark_mine]
      by auto
  next
    fix st2 s p assume "persists (knowledge st) st2"
    then show "persists (knowledge st) (st2\<lparr>knowledge := knowledge st2 @ [new_inference s p]\<rparr>)"
      by (auto simp: persists_def nth_append)
  qed
  then show ?thesis
    unfolding persists_def shrunk_def by (auto intro: sentence.equality)
qed

lemma eval_1x3_second:
  "add_knowledge
     \<lparr>height = 1, width = 3, moves_made = {(0, 1)}, mines = {}, safes = {(0, 1)},
      knowledge = [\<lparr>cells = {(0, 0), (0, 2)}, count = 1\<rparr>]\<rparr> (0, 0) 0 =
     Some \<lparr>height = 1, width = 3, moves_made = {(0, 0), (0, 1)}, mines = {(0, 2)},
           safes = {(0, 0), (0, 1)},
           knowledge = [\<lparr>cells = {}, count = 0\<rparr>, \<lparr>cells = {}, count = 0\<rparr>]\<rparr>"
  by code_simp

theorem statements_persist_witness:
  "add_knowledge
     \<lparr>height = 1, width = 3, moves_made = {(0, 1)}, mines = {}, safes = {(0, 1)},
      knowledge = [\<lparr>cells = {(0, 0), (0, 2)}, count = 1\<rparr>]\<rparr> (0, 0) 0 =
     Some \<lparr>height = 1, width = 3, moves_made = {(0, 0), (0, 1)}, mines = {(0, 2)},
           safes = {(0, 0), (0, 1)},
           knowledge = [\<lparr>cells = {}, count = 0\<rparr>, \<lparr>cells = {}, count = 0\<rparr>]\<rparr> \<and>
   length [\<lparr>cells = {(0::int, 0::int), (0, 2)}, count = 1\<rparr>] \<le>
     length [\<lparr>cells = {}, count = 0\<rparr>, \<lparr>cells = {}, count = (0::int)\<rparr>] \<and>
   cells ([\<lparr>cells = {}, count = 0\<rparr>, \<lparr>cells = {}, count = 0\<rparr>] ! 0) \<subseteq>
     cells ([\<lparr>cells = {(0::int, 0::int), (0, 2)}, count = 1\<rparr>] ! 0) \<and>
   count ([\<lparr>cells = {}, count = 0\<rparr>, \<lparr>cells = {}, count = 0\<rparr>] ! 0) \<le>
     count ([\<lparr>cells = {(0::int, 0::int), (0, 2)}, count = 1\<rparr>] ! 0)"
proof -
  let ?st = "\<lparr>height = 1, width = 3, moves_made = {(0, 1)}, mines = {}, safes = {(0, 1)},
      knowledge = [\<lparr>cells = {(0, 0), (0, 2)}, count = 1\<rparr>]\<rparr>"
  let ?st' = "\<lparr>height = 1, width = 3, moves_made = {(0, 0), (0, 1)}, mines = {(0, 2)},
      safes = {(0, 0), (0, 1)},
      knowledge = [\<lparr>cells = {}, count = 0\<rparr>, \<lparr>cells = {}, count = 0\<rparr>]\<rparr>"
  have call: "add_knowledge ?st (0, 0) 0 = Some ?st'" by (rule eval_1x3_second)
  from statements_persist[OF call]
  have "length (knowledge ?st) \<le> length (knowledge ?st') \<and>
      cells (knowledge ?st' ! 0) \<subseteq> cells (knowledge ?st ! 0) \<and>
      count (knowledge ?st' ! 0) \<le> count (knowledge ?st ! 0)"
    by simp
  then show ?thesis using call by simp
qed

section \<open>Known mines and known safe cells\<close>

lemma known_safes_subset: "known_safes s \<subseteq> cells s"
  by (simp add: known_safes_def)

lemma known_mines_subset: "known_mines s \<subseteq> cells s"
  by (simp add: known_mines_def)

lemma unresolved_step:
  assumes "unresolved st" and "c \<notin> mines st" and "add_knowledge st c n = Some st'"
  shows "unresolved st'"
  using assms(3)
proof (rule add_knowledge_invariant)
  show "unresolved (observe st c n)"
    using assms(1,2)
    by (auto simp: unresolved_def knowledge_observe Sentence_mark_safe_eq adjacent_def)
next
  fix st i x
  assume "unresolved st" "i < length (knowledge st)" "x \<in> known_safes (knowledge st ! i)"
  moreover from this have "x \<in> cells (knowledge st ! i)" using known_safes_subset by blast
  ultimately have "x \<notin> mines st" unfolding unresolved_def using nth_mem by blast
  with \<open>unresolved st\<close> show "unresolved (mark_safe st x)"
    by (auto simp: unresolved_def mark_safe_def Sentence_mark_safe_eq)
next
  fix st i x
  assume "unresolved st" "i < length (knowledge st)" "x \<in> known_mines (knowledge st ! i)"
  moreover from this have "x \<in> cells (knowledge st ! i)" using known_mines_subset by blast
  ultimately have "x \<notin> safes st" unfolding unresolved_def using nth_mem by blast
  with \<open>unresolved st\<close> show "unresolved (mark_mine st x)"
    by (auto simp: unresolved_def mark_mine_def Sentence_mark_mine_eq)
next
  fix st s p assume "unresolved st" "s \<in> set (knowledge st)"
  then show "unresolved (st\<lparr>knowledge := knowledge st @ [new_inference s p]\<rparr>)"
    by (auto simp: unresolved_def new_inference_def Sentence_def)
qed

lemma eval_1x2_first:
  "add_knowledge (init 1 2) (0, 0) 1 =
     Some \<lparr>height = 1, width = 2, moves_made = {(0, 0)}, mines = {(0, 1)}, safes = {(0, 0)},
           knowledge = [\<lparr>cells = {}, count = 0\<rparr>]\<rparr>"
  by code_simp

text \<open>
  An observation of a cell that is a known mine puts the cell into \<open>safes\<close> as well: on a
  board of one row and two columns, the observation of \<open>(0, 0)\<close> with count 1 makes
  \<open>(0, 1)\<close> a known mine, and the observation of \<open>(0, 1)\<close> then adds it to \<open>safes\<close>.
\<close>

theorem disjointness_counterexample:
  "add_knowledge (init 1 2) (0, 0) 1 =
     Some \<lparr>height = 1, width = 2, moves_made = {(0, 0)}, mines = {(0, 1)}, safes = {(0, 0)},
           knowledge = [\<lparr>cells = {}, count = 0\<rparr>]\<rparr> \<and>
   add_knowledge
     \<lparr>height = 1, width = 2, moves_made = {(0, 0)}, mines = {(0, 1)}, safes = {(0, 0)},
      knowledge = [\<lparr>cells = {}, count = 0\<rparr>]\<rparr> (0, 1) 0 =
     Some \<lparr>height = 1, width = 2, moves_made = {(0, 0), (0, 1)}, mines = {(0, 1)},
           safes = {(0, 0), (0, 1)},
           knowledge = [\<lparr>cells = {}, count = 0\<rparr>, \<lparr>cells = {}, count = 0\<rparr>]\<rparr>"
  by code_simp

text \<open>
  Claim C2, as the code has it. In every state reachable with the public methods, when
  no observation is made of a cell that is at that time a known mine (cells in bounds,
  counts not negative), no cell is both a known mine and known to be safe.
\<close>

theorem mines_safes_disjoint:
  assumes "reachable unmined_observation h w st"
  shows "mines st \<inter> safes st = {}"
proof -
  have "unresolved st"
    using assms
  proof (rule reachable_invariant)
    show "unresolved (init h w)" by (simp add: unresolved_def init_def)
  next
    fix st c n st'
    assume "unresolved st" "unmined_observation st c n" "add_knowledge st c n = Some st'"
    then show "unresolved st'" by (auto simp: unmined_observation_def intro: unresolved_step)
  qed
  then show ?thesis by (simp add: unresolved_def)
qed

lemma reach_1x2:
  "reachable unmined_observation 1 2
     \<lparr>height = 1, width = 2, moves_made = {(0, 0)}, mines = {(0, 1)}, safes = {(0, 0)},
      knowledge = [\<lparr>cells = {}, count = 0\<rparr>]\<rparr>"
  by (rule reachable.observation[OF reachable.start _ eval_1x2_first])
    (simp add: unmined_observation_def in_bounds_def init_def)

theorem mines_safes_disjoint_witness:
  "reachable unmined_observation 1 2
     \<lparr>height = 1, width = 2, moves_made = {(0, 0)}, mines = {(0, 1)}, safes = {(0, 0)},
      knowledge = [\<lparr>cells = {}, count = 0\<rparr>]\<rparr> \<and>
   {(0::int, 1::int)} \<inter> {(0, 0)} = {}"
  using mines_safes_disjoint[OF reach_1x2] reach_1x2 by simp

section \<open>Arguments are not checked\<close>

text \<open>
  \<open>add_knowledge\<close> has no check of its arguments and no failing branch: a cell outside
  the grid, and a negative count, are processed and change the state.
\<close>

theorem precondition_counterexample:
  "add_knowledge (init 2 2) (5, 5) 0 =
     Some \<lparr>height = 2, width = 2, moves_made = {(5, 5)}, mines = {}, safes = {(5, 5)},
           knowledge = [\<lparr>cells = {}, count = 0\<rparr>]\<rparr> \<and>
   add_knowledge (init 2 2) (0, 0) (- 1) =
     Some \<lparr>height = 2, width = 2, moves_made = {(0, 0)}, mines = {}, safes = {(0, 0)},
           knowledge = [\<lparr>cells = {(0, 1), (1, 0), (1, 1)}, count = - 1\<rparr>]\<rparr>"
  by code_simp

text \<open>
  Claim C5, as the code has it. For every cell and every count, in the grid or not,
  negative or not, a call of \<open>add_knowledge\<close> that returns has put the cell into
  \<open>moves_made\<close> and \<open>safes\<close> and has made the list of sentences longer; and on a new
  solver the call returns for every cell and every count.
\<close>

theorem observation_unchecked:
  "(add_knowledge st c n = Some st' \<longrightarrow>
      c \<in> moves_made st' \<and> c \<in> safes st' \<and> length (knowledge st) < length (knowledge st')) \<and>
   add_knowledge (init h w) c n = Some (extraction (observe (init h w) c n))"
proof -
  have "c \<in> moves_made st' \<and> c \<in> safes st' \<and> length (knowledge st) < length (knowledge st')"
    if "add_knowledge st c n = Some st'"
    using that
  proof (rule add_knowledge_invariant)
    show "c \<in> moves_made (observe st c n) \<and> c \<in> safes (observe st c n) \<and>
        length (knowledge st) < length (knowledge (observe st c n))"
      by (simp add: knowledge_observe)
  qed (auto simp: mark_safe_def mark_mine_def)
  then show ?thesis using add_knowledge_fresh by blast
qed

theorem observation_unchecked_witness:
  "add_knowledge (init 2 2) (5, 5) (- 1) =
     Some \<lparr>height = 2, width = 2, moves_made = {(5, 5)}, mines = {}, safes = {(5, 5)},
           knowledge = [\<lparr>cells = {}, count = - 1\<rparr>]\<rparr> \<and>
   (5, 5) \<in> moves_made \<lparr>height = 2, width = 2, moves_made = {(5, 5)}, mines = {},
      safes = {(5::int, 5::int)}, knowledge = [\<lparr>cells = {}, count = - 1\<rparr>]\<rparr>"
proof -
  have ev: "add_knowledge (init 2 2) (5, 5) (- 1) =
     Some \<lparr>height = 2, width = 2, moves_made = {(5, 5)}, mines = {}, safes = {(5, 5)},
           knowledge = [\<lparr>cells = {}, count = - 1\<rparr>]\<rparr>"
    by code_simp
  from observation_unchecked[of "init 2 2" "(5, 5)" "- 1" _ 2 2] ev show ?thesis by simp
qed

section \<open>What the subset loop derives\<close>

lemma infers_eligible: "infers ks s p \<longleftrightarrow> eligible s p \<and> new_inference s p \<notin> set ks"
  by (auto simp: infers_def eligible_def)

lemma subset_loop_derives:
  assumes "subset_loop ks i j made = Some r"
  shows "set ks \<subseteq> set r \<and>
         (\<forall>a b. a < length ks \<and> b < length ks \<and> (i < a \<or> (i = a \<and> j \<le> b)) \<and>
                eligible (ks ! a) (ks ! b) \<longrightarrow> new_inference (ks ! a) (ks ! b) \<in> set r)"
  using assms
proof (induction rule: subset_loop_induct)
  case (append ks i j made r)
  let ?ks' = "ks @ [new_inference (ks ! i) (ks ! j)]"
  from append.IH have sub: "set ?ks' \<subseteq> set r"
    and ahead: "\<And>a b. a < length ?ks' \<Longrightarrow> b < length ?ks' \<Longrightarrow>
        i < a \<or> (i = a \<and> j + 1 \<le> b) \<Longrightarrow> eligible (?ks' ! a) (?ks' ! b) \<Longrightarrow>
        new_inference (?ks' ! a) (?ks' ! b) \<in> set r"
    by blast+
  have "new_inference (ks ! a) (ks ! b) \<in> set r"
    if ab: "a < length ks" "b < length ks" "i < a \<or> (i = a \<and> j \<le> b)" "eligible (ks ! a) (ks ! b)"
    for a b
  proof (cases "a = i \<and> b = j")
    case True
    then show ?thesis using sub by auto
  next
    case False
    with ab have "i < a \<or> (i = a \<and> j + 1 \<le> b)" by auto
    then show ?thesis using ahead[of a b] ab by (simp add: nth_append)
  qed
  with sub show ?case by auto
next
  case (skip ks i j made r)
  from skip.IH have sub: "set ks \<subseteq> set r"
    and ahead: "\<And>a b. a < length ks \<Longrightarrow> b < length ks \<Longrightarrow>
        i < a \<or> (i = a \<and> j + 1 \<le> b) \<Longrightarrow> eligible (ks ! a) (ks ! b) \<Longrightarrow>
        new_inference (ks ! a) (ks ! b) \<in> set r"
    by blast+
  have "new_inference (ks ! a) (ks ! b) \<in> set r"
    if ab: "a < length ks" "b < length ks" "i < a \<or> (i = a \<and> j \<le> b)" "eligible (ks ! a) (ks ! b)"
    for a b
  proof (cases "a = i \<and> b = j")
    case True
    with skip(3) ab have "new_inference (ks ! a) (ks ! b) \<in> set ks"
      by (simp add: infers_eligible)
    then show ?thesis using sub by auto
  next
    case False
    with ab have "i < a \<or> (i = a \<and> j + 1 \<le> b)" by auto
    then show ?thesis using ahead[of a b] ab by simp
  qed
  with sub show ?case by auto
next
  case (next_sentence ks i j made r)
  from next_sentence.IH have sub: "set ks \<subseteq> set r"
    and ahead: "\<And>a b. a < length ks \<Longrightarrow> b < length ks \<Longrightarrow>
        i + 1 < a \<or> (i + 1 = a \<and> 0 \<le> b) \<Longrightarrow> eligible (ks ! a) (ks ! b) \<Longrightarrow>
        new_inference (ks ! a) (ks ! b) \<in> set r"
    by blast+
  have "new_inference (ks ! a) (ks ! b) \<in> set r"
    if ab: "a < length ks" "b < length ks" "i < a \<or> (i = a \<and> j \<le> b)" "eligible (ks ! a) (ks ! b)"
    for a b
  proof -
    from ab next_sentence(2) have "i + 1 < a \<or> (i + 1 = a \<and> 0 \<le> b)" by auto
    then show ?thesis using ahead[of a b] ab by simp
  qed
  with sub show ?case by auto
next
  case (restart ks i j r)
  then show ?case by auto
next
  case (exit ks i j)
  then show ?case by auto
qed

lemma subset_loop_closed:
  assumes "subset_loop ks 0 0 False = Some r" and "s \<in> set ks" and "p \<in> set ks"
    and "eligible s p"
  shows "new_inference s p \<in> set r"
proof -
  from assms(2,3) obtain a b where "a < length ks" "ks ! a = s" "b < length ks" "ks ! b = p"
    by (metis in_set_conv_nth)
  then show ?thesis using subset_loop_derives[OF assms(1)] assms(4) by auto
qed

section \<open>One sentence through the extraction pass\<close>

lemma tracked_refl: "tracked st i st"
  by (simp add: tracked_def)

lemma tracked_mark_safe:
  "tracked st i st' \<Longrightarrow> i < length (knowledge st) \<Longrightarrow> tracked st i (mark_safe st' x)"
  unfolding tracked_def mark_safe_def Sentence_mark_safe_eq by auto

lemma tracked_mark_mine:
  "tracked st i st' \<Longrightarrow> i < length (knowledge st) \<Longrightarrow> tracked st i (mark_mine st' x)"
  unfolding tracked_def mark_mine_def Sentence_mark_mine_eq by auto

lemma tracked_fold:
  assumes i: "i < length (knowledge st)" and v: "\<forall>k \<in> set ks. k < length (knowledge st)"
  shows "tracked st i (fold (\<lambda>i s. extract_sentence s i) ks st)"
proof -
  have "tracked st i (fold (\<lambda>i s. extract_sentence s i) ks st) \<and>
        length (knowledge (fold (\<lambda>i s. extract_sentence s i) ks st)) = length (knowledge st)"
  proof (rule fold_extract_invariant[where I = "\<lambda>s. tracked st i s \<and> length (knowledge s) = length (knowledge st)"])
    show "tracked st i st \<and> length (knowledge st) = length (knowledge st)"
      by (simp add: tracked_refl)
    show "\<forall>k \<in> set ks. k < length (knowledge st)" by (rule v)
  qed (use i in \<open>auto intro: tracked_mark_safe tracked_mark_mine\<close>)
  then show ?thesis by simp
qed

lemma tracked_examined:
  "i < length (knowledge st) \<Longrightarrow> k \<le> length (knowledge st) \<Longrightarrow> tracked st i (examined st k)"
  unfolding examined_def by (rule tracked_fold) auto

lemma extraction_split:
  assumes "i < length (knowledge st)"
  shows "extraction st =
     fold (\<lambda>i s. extract_sentence s i) [Suc i..<length (knowledge st)]
       (extract_sentence (examined st i) i)"
proof -
  have "[0..<length (knowledge st)] = [0..<i] @ [i..<length (knowledge st)]"
    using upt_add_eq_append[of 0 i "length (knowledge st) - i"] assms by simp
  also have "[i..<length (knowledge st)] = i # [Suc i..<length (knowledge st)]"
    using assms by (simp add: upt_conv_Cons)
  finally show ?thesis by (simp add: extraction_def examined_def)
qed

lemma extract_sentence_safes:
  assumes "finite (cells (knowledge st ! i))" and "count (knowledge st ! i) = 0"
  shows "cells (knowledge st ! i) \<subseteq> safes (extract_sentence st i)"
proof (cases "cells (knowledge st ! i) = {}")
  case True
  then show ?thesis by simp
next
  case False
  let ?S = "cells (knowledge st ! i)"
  define st1 where "st1 = fold (\<lambda>c s. mark_safe s c) (sorted_list_of_set ?S) st"
  have ks: "known_safes (knowledge st ! i) = ?S" using assms by (simp add: known_safes_def)
  have "?S \<subseteq> safes st1" using assms(1) by (simp add: st1_def fold_mark_safe)
  moreover have "safes st1 \<subseteq> safes (extract_sentence st i)"
    unfolding extract_sentence_def Let_def ks using False
    by (auto simp: st1_def[symmetric] fold_mark_mine)
  ultimately show ?thesis by blast
qed

lemma extract_sentence_mines:
  assumes "finite (cells (knowledge st ! i))"
    and "count (knowledge st ! i) = int (card (cells (knowledge st ! i)))"
    and "0 < count (knowledge st ! i)"
  shows "cells (knowledge st ! i) \<subseteq> mines (extract_sentence st i)"
proof -
  let ?S = "cells (knowledge st ! i)"
  have safes: "known_safes (knowledge st ! i) = {}" using assms by (simp add: known_safes_def)
  have mines: "known_mines (knowledge st ! i) = ?S" using assms by (simp add: known_mines_def)
  have "?S \<noteq> {}" using assms by auto
  then show ?thesis
    unfolding extract_sentence_def Let_def safes using assms(1)
    by (simp add: mines fold_mark_mine)
qed

lemma extraction_after:
  assumes "i < length (knowledge st)"
  shows "safes (extract_sentence (examined st i) i) \<subseteq> safes (extraction st) \<and>
         mines (extract_sentence (examined st i) i) \<subseteq> mines (extraction st)"
proof -
  let ?st1 = "extract_sentence (examined st i) i"
  have len: "length (knowledge ?st1) = length (knowledge st)"
    using tracked_examined[OF assms, of i] assms by (simp add: tracked_def)
  have "tracked ?st1 i (fold (\<lambda>i s. extract_sentence s i) [Suc i..<length (knowledge st)] ?st1)"
    by (rule tracked_fold) (use len assms in auto)
  then show ?thesis unfolding extraction_split[OF assms] by (simp add: tracked_def)
qed

lemma examined_sound:
  assumes i: "i < length (knowledge st)"
    and fin: "finite (cells (knowledge (examined st i) ! i))"
  shows "(count (knowledge (examined st i) ! i) = 0 \<longrightarrow>
            cells (knowledge (examined st i) ! i) \<subseteq> safes (extraction st)) \<and>
         (count (knowledge (examined st i) ! i) = int (card (cells (knowledge (examined st i) ! i))) \<and>
          0 < count (knowledge (examined st i) ! i) \<longrightarrow>
            cells (knowledge (examined st i) ! i) \<subseteq> mines (extraction st))"
  using extract_sentence_safes[OF fin] extract_sentence_mines[OF fin] extraction_after[OF i]
  by blast

lemma examined_mono:
  assumes "i < length (knowledge st)"
  shows "safes (examined st i) \<subseteq> safes (extraction st) \<and>
         mines (examined st i) \<subseteq> mines (extraction st)"
proof -
  have len: "length (knowledge (examined st i)) = length (knowledge st)"
    using tracked_examined[OF assms, of i] assms by (simp add: tracked_def)
  have "tracked (examined st i) i (fold (\<lambda>i s. extract_sentence s i) [i] (examined st i))"
    by (rule tracked_fold) (use len assms in auto)
  then show ?thesis using extraction_after[OF assms] by (auto simp: tracked_def)
qed

lemma extraction_resolves:
  assumes "\<lparr>cells = {c}, count = 0\<rparr> \<in> set (knowledge st)"
  shows "c \<in> safes (extraction st) \<or> c \<in> mines (extraction st)"
proof -
  from assms obtain k where k: "k < length (knowledge st)"
    and sk: "knowledge st ! k = \<lparr>cells = {c}, count = 0\<rparr>"
    by (metis in_set_conv_nth)
  let ?st' = "examined st k"
  let ?s' = "knowledge ?st' ! k"
  have tr: "tracked st k ?st'" using tracked_examined[OF k, of k] k by simp
  show ?thesis
  proof (cases "c \<in> cells ?s'")
    case True
    with tr sk have "cells ?s' = {c}" by (auto simp: tracked_def)
    with tr sk have s': "?s' = \<lparr>cells = {c}, count = 0\<rparr>" by (simp add: tracked_def)
    then have "finite (cells ?s')" by simp
    from examined_sound[OF k this] s' show ?thesis by simp
  next
    case False
    with tr sk have "c \<in> safes ?st' \<union> mines ?st'" by (auto simp: tracked_def)
    with examined_mono[OF k] show ?thesis by auto
  qed
qed

lemma next_call_resolves:
  assumes in_k: "\<lparr>cells = {c}, count = 0\<rparr> \<in> set (knowledge st)"
    and call: "add_knowledge st y m = Some st'"
  shows "c \<in> safes st' \<or> c \<in> mines st'"
proof -
  from call obtain ks' where st': "st' = (extraction (observe st y m))\<lparr>knowledge := ks'\<rparr>"
    by (rule add_knowledge_SomeD)
  show ?thesis
  proof (cases "y = c")
    case True
    then have "c \<in> safes (observe st y m)" by simp
    with extraction_mono[of "observe st y m"] show ?thesis by (auto simp: st')
  next
    case False
    then have "Sentence_mark_safe \<lparr>cells = {c}, count = 0\<rparr> y = \<lparr>cells = {c}, count = 0\<rparr>"
      by (simp add: Sentence_mark_safe_def)
    with in_k have "\<lparr>cells = {c}, count = 0\<rparr> \<in> set (knowledge (observe st y m))"
      unfolding knowledge_observe by force
    from extraction_resolves[OF this] show ?thesis by (simp add: st')
  qed
qed

section \<open>Knowledge that agrees with a board\<close>

lemma fold_nearby_step:
  "distinct xs \<Longrightarrow>
   fold (nearby_step h w board c) xs k =
     k + int (card {x \<in> set xs. x \<noteq> c \<and>
                x \<in> {n \<in> board. 0 \<le> fst n \<and> fst n < h \<and> 0 \<le> snd n \<and> snd n < w}})"
proof (induction xs arbitrary: k)
  case Nil
  then show ?case by simp
next
  case (Cons x xs)
  from Cons.prems have d: "distinct xs" and nin: "x \<notin> set xs" by simp_all
  show ?case
    unfolding fold_Cons comp_def Cons.IH[OF d] card_mine_Cons[OF nin]
    by (simp add: nearby_step_def)
qed

lemma nearby_mines_eq:
  "nearby_mines (height st) (width st) board c =
     int (card {x. adjacent c x \<and> in_bounds st x \<and> x \<in> board})"
proof -
  have "{x \<in> set (neighbourhood c). x \<noteq> c \<and>
          x \<in> {n \<in> board. 0 \<le> fst n \<and> fst n < height st \<and> 0 \<le> snd n \<and> snd n < width st}} =
        {x. adjacent c x \<and> in_bounds st x \<and> x \<in> board}"
    by (auto simp: adjacent_neighbourhood in_bounds_def)
  then show ?thesis
    by (simp add: nearby_mines_def fold_nearby_step[OF distinct_neighbourhood])
qed

lemma finite_in_bounds: "finite {x. in_bounds st x}"
proof -
  have "{x. in_bounds st x} \<subseteq> {0..<height st} \<times> {0..<width st}"
    by (auto simp: in_bounds_def)
  then show ?thesis by (rule finite_subset) simp
qed

lemma finite_adjacent: "finite {x. adjacent c x \<and> P x}"
  by (rule finite_subset[of _ "set (neighbourhood c)"]) (auto simp: adjacent_neighbourhood)

lemma consistent_finite:
  assumes "consistent board st" "s \<in> set (knowledge st)"
  shows "finite (cells s)"
proof -
  have "cells s \<subseteq> {x. in_bounds st x}" using assms by (auto simp: consistent_def)
  then show ?thesis using finite_in_bounds by (rule finite_subset)
qed

lemma consistent_observe:
  assumes con: "consistent board st" and tr: "truthful board st c n"
  shows "consistent board (observe st c n)"
proof -
  let ?A = "{x. adjacent c x \<and> in_bounds st x \<and> x \<in> board}"
  let ?Mi = "{x. adjacent c x \<and> x \<in> mines st}"
  let ?N = "{x. adjacent c x \<and> in_bounds st x \<and> x \<notin> mines st \<and> x \<notin> safes st \<and>
               x \<notin> moves_made st}"
  have sub: "?Mi \<subseteq> ?A" using con by (auto simp: consistent_def)
  have "?N \<inter> board = ?A - ?Mi" using con by (auto simp: consistent_def)
  then have "card (?N \<inter> board) = card ?A - card ?Mi"
    using card_Diff_subset[OF finite_adjacent sub] by simp
  moreover have "card ?Mi \<le> card ?A" using sub finite_adjacent by (intro card_mono) auto
  ultimately have new: "int (card (?N \<inter> board)) = n - int (card ?Mi)"
    using tr by (simp add: truthful_def nearby_mines_eq)
  have c: "c \<notin> board" using tr by (simp add: truthful_def)
  have old: "(cells s - {c}) \<inter> board = cells s \<inter> board" for s :: sentence using c by auto
  have "\<forall>s \<in> set (knowledge (observe st c n)).
      (\<forall>x \<in> cells s. in_bounds st x) \<and> count s = int (card (cells s \<inter> board))"
    unfolding knowledge_observe using con new
    by (auto simp: consistent_def Sentence_mark_safe_eq old)
  then show ?thesis
    using con c by (auto simp: consistent_def in_bounds_def)
qed

lemma consistent_mark_safe:
  assumes con: "consistent board st" and i: "i < length (knowledge st)"
    and x: "x \<in> known_safes (knowledge st ! i)"
  shows "consistent board (mark_safe st x)"
proof -
  let ?s = "knowledge st ! i"
  have s: "?s \<in> set (knowledge st)" using i by simp
  from x have "count ?s = 0" "x \<in> cells ?s" by (auto simp: known_safes_def split: if_splits)
  moreover have "count ?s = int (card (cells ?s \<inter> board))" using con s by (simp add: consistent_def)
  moreover have "finite (cells ?s \<inter> board)" using consistent_finite[OF con s] by simp
  ultimately have "x \<notin> board" by auto
  then have "(cells s - {x}) \<inter> board = cells s \<inter> board" for s :: sentence by auto
  with con \<open>x \<notin> board\<close> show ?thesis
    by (auto simp: consistent_def mark_safe_def Sentence_mark_safe_eq in_bounds_def)
qed

lemma consistent_mark_mine:
  assumes con: "consistent board st" and i: "i < length (knowledge st)"
    and x: "x \<in> known_mines (knowledge st ! i)"
  shows "consistent board (mark_mine st x)"
proof -
  let ?s = "knowledge st ! i"
  have s: "?s \<in> set (knowledge st)" using i by simp
  from x have "int (card (cells ?s)) = count ?s" "x \<in> cells ?s"
    by (auto simp: known_mines_def split: if_splits)
  moreover have "count ?s = int (card (cells ?s \<inter> board))" using con s by (simp add: consistent_def)
  ultimately have "card (cells ?s \<inter> board) = card (cells ?s)" by simp
  then have "cells ?s \<inter> board = cells ?s"
    using consistent_finite[OF con s] by (intro card_subset_eq) auto
  with \<open>x \<in> cells ?s\<close> have xb: "x \<in> board" by auto
  have xin: "in_bounds st x" using con s \<open>x \<in> cells ?s\<close> by (auto simp: consistent_def)
  have cnt: "count (Sentence_mark_mine s x) = int (card (cells (Sentence_mark_mine s x) \<inter> board))"
    if "s \<in> set (knowledge st)" for s
  proof (cases "x \<in> cells s")
    case True
    have fin: "finite (cells s \<inter> board)" using consistent_finite[OF con that] by simp
    have "(cells s - {x}) \<inter> board = (cells s \<inter> board) - {x}" by auto
    moreover have xs: "x \<in> cells s \<inter> board" using True xb by simp
    ultimately have "card ((cells s - {x}) \<inter> board) = card (cells s \<inter> board) - 1"
      by (simp add: card_Diff_singleton)
    moreover have "0 < card (cells s \<inter> board)" using fin xs by (auto simp: card_gt_0_iff)
    ultimately have "int (card ((cells s - {x}) \<inter> board)) = int (card (cells s \<inter> board)) - 1"
      by simp
    moreover have "count s = int (card (cells s \<inter> board))" using con that by (simp add: consistent_def)
    ultimately show ?thesis using True by (simp add: Sentence_mark_mine_def)
  next
    case False
    then show ?thesis using con that by (simp add: Sentence_mark_mine_def consistent_def)
  qed
  have "\<forall>s \<in> set (knowledge (mark_mine st x)).
      (\<forall>y \<in> cells s. in_bounds st y) \<and> count s = int (card (cells s \<inter> board))"
    using con cnt by (auto simp: mark_mine_def consistent_def Sentence_mark_mine_eq)
  then show ?thesis
    using con xb xin by (auto simp: consistent_def mark_mine_def in_bounds_def)
qed

lemma card_Int_Diff:
  assumes "finite s" "p \<subseteq> s"
  shows "int (card ((s - p) \<inter> B)) = int (card (s \<inter> B)) - int (card (p \<inter> B))"
proof -
  have "(s - p) \<inter> B = (s \<inter> B) - (p \<inter> B)" by auto
  moreover have "finite (p \<inter> B)" using assms finite_subset by blast
  moreover have "p \<inter> B \<subseteq> s \<inter> B" using assms by auto
  moreover have "card (p \<inter> B) \<le> card (s \<inter> B)" using assms by (intro card_mono) auto
  ultimately show ?thesis by (simp add: card_Diff_subset)
qed

lemma consistent_append:
  assumes con: "consistent board st" and s: "s \<in> set (knowledge st)"
    and p: "p \<in> set (knowledge st)" and inf: "infers (knowledge st) s p"
  shows "consistent board (st\<lparr>knowledge := knowledge st @ [new_inference s p]\<rparr>)"
proof -
  have "cells p \<subseteq> cells s" using inf by (simp add: infers_def)
  then have "int (card ((cells s - cells p) \<inter> board)) = count s - count p"
    using card_Int_Diff[OF consistent_finite[OF con s]] con s p by (simp add: consistent_def)
  with con s show ?thesis
    by (auto simp: consistent_def new_inference_def Sentence_def in_bounds_def)
qed

lemma consistent_step:
  assumes "consistent board st" and "truthful board st c n"
    and "add_knowledge st c n = Some st'"
  shows "consistent board st'"
  using assms(3)
proof (rule add_knowledge_invariant)
  show "consistent board (observe st c n)" using assms(1,2) by (rule consistent_observe)
qed (blast intro: consistent_mark_safe consistent_mark_mine consistent_append)+

lemma consistent_examined:
  assumes "consistent board st" and "k \<le> length (knowledge st)"
  shows "consistent board (examined st k)"
  unfolding examined_def
  by (rule fold_extract_invariant[where I = "consistent board"])
    (use assms in \<open>auto intro: consistent_mark_safe consistent_mark_mine\<close>)

lemma consistent_sound:
  assumes con: "consistent board st" and i: "i < length (knowledge st)"
  shows "(count (knowledge st ! i) = 0 \<longrightarrow> cells (knowledge st ! i) \<subseteq> safes (extraction st)) \<and>
         (count (knowledge st ! i) = int (card (cells (knowledge st ! i))) \<and>
          0 < count (knowledge st ! i) \<longrightarrow> cells (knowledge st ! i) \<subseteq> mines (extraction st))"
proof -
  let ?s = "knowledge st ! i" and ?st' = "examined st i"
  let ?s' = "knowledge ?st' ! i"
  have s: "?s \<in> set (knowledge st)" using i by simp
  have fs: "finite (cells ?s)" using consistent_finite[OF con s] .
  have cs: "count ?s = int (card (cells ?s \<inter> board))" using con s by (simp add: consistent_def)
  have tr: "tracked st i ?st'" using tracked_examined[OF i, of i] i by simp
  then have sub: "cells ?s' \<subseteq> cells ?s"
    and gone: "cells ?s - cells ?s' \<subseteq> safes ?st' \<union> mines ?st'"
    and len: "length (knowledge ?st') = length (knowledge st)"
    by (simp_all add: tracked_def)
  have con': "consistent board ?st'" using consistent_examined[OF con] i by simp
  have s': "?s' \<in> set (knowledge ?st')" using i len by simp
  have fs': "finite (cells ?s')" using consistent_finite[OF con' s'] .
  have cs': "count ?s' = int (card (cells ?s' \<inter> board))" using con' s' by (simp add: consistent_def)
  have mb: "mines ?st' \<subseteq> board" and sb: "safes ?st' \<inter> board = {}"
    using con' by (auto simp: consistent_def)
  note snd = examined_sound[OF i fs'] and after = extraction_after[OF i]
  have later: "safes ?st' \<subseteq> safes (extraction st)" "mines ?st' \<subseteq> mines (extraction st)"
    using tracked_fold[of i "?st'" "[i]"] i len after by (auto simp: tracked_def)
  show ?thesis
  proof (intro conjI impI)
    assume "count ?s = 0"
    with cs fs have none: "cells ?s \<inter> board = {}" by simp
    with sub have "cells ?s' \<inter> board = {}" by auto
    with cs' have "count ?s' = 0" by simp
    with snd have "cells ?s' \<subseteq> safes (extraction st)" by simp
    moreover have "cells ?s - cells ?s' \<subseteq> safes ?st'" using gone none mb by auto
    ultimately show "cells ?s \<subseteq> safes (extraction st)" using later by auto
  next
    assume "count ?s = int (card (cells ?s)) \<and> 0 < count ?s"
    with cs have "card (cells ?s \<inter> board) = card (cells ?s)" by simp
    then have "cells ?s \<inter> board = cells ?s" using fs by (intro card_subset_eq) auto
    then have all: "cells ?s \<subseteq> board" by auto
    with sub have "cells ?s' \<inter> board = cells ?s'" by auto
    with cs' have c: "count ?s' = int (card (cells ?s'))" by simp
    have "cells ?s' \<subseteq> mines (extraction st)"
    proof (cases "cells ?s' = {}")
      case True
      then show ?thesis by simp
    next
      case False
      with fs' c have "0 < count ?s'" by (simp add: card_gt_0_iff)
      with snd c show ?thesis by simp
    qed
    moreover have "cells ?s - cells ?s' \<subseteq> mines ?st'" using gone all sb by auto
    ultimately show "cells ?s \<subseteq> mines (extraction st)" using later by auto
  qed
qed

section \<open>Termination of the subset loop\<close>

lemma determined_append:
  assumes fin: "finite G" and det: "determined G board ks"
    and i: "i < length ks" and j: "j < length ks" and inf: "infers ks (ks ! i) (ks ! j)"
  shows "determined G board (ks @ [new_inference (ks ! i) (ks ! j)])"
    and "card (Pow G - cells ` set (ks @ [new_inference (ks ! i) (ks ! j)])) <
         card (Pow G - cells ` set ks)"
proof -
  let ?s = "ks ! i" and ?p = "ks ! j"
  let ?new = "new_inference ?s ?p"
  have s: "?s \<in> set ks" and p: "?p \<in> set ks" using i j by simp_all
  have sG: "cells ?s \<subseteq> G" using det s by (simp add: determined_def)
  have fs: "finite (cells ?s)" using sG fin by (rule finite_subset)
  have sub: "cells ?p \<subseteq> cells ?s" using inf by (simp add: infers_def)
  have cnt: "count ?new = int (card (cells ?new \<inter> board))"
    using card_Int_Diff[OF fs sub, of board] det s p
    by (simp add: new_inference_def Sentence_def determined_def)
  have newG: "cells ?new \<subseteq> G" using sG by (auto simp: new_inference_def Sentence_def)
  show "determined G board (ks @ [?new])"
    using det cnt newG by (simp add: determined_def)
  have "cells ?new \<notin> cells ` set ks"
  proof
    assume "cells ?new \<in> cells ` set ks"
    then obtain s' where s': "s' \<in> set ks" "cells s' = cells ?new" by auto
    then have "count s' = count ?new" using det cnt by (simp add: determined_def)
    with s' have "s' = ?new" by (auto intro: sentence.equality)
    with s' inf show False by (simp add: infers_def)
  qed
  then have mem: "cells ?new \<in> Pow G - cells ` set ks" using newG by simp
  have eq: "Pow G - cells ` set (ks @ [?new]) = (Pow G - cells ` set ks) - {cells ?new}"
    by auto
  have finP: "finite (Pow G - cells ` set ks)" using fin by simp
  show "card (Pow G - cells ` set (ks @ [?new])) < card (Pow G - cells ` set ks)"
    unfolding eq by (rule card_Diff1_less[OF finP mem])
qed

lemma subset_loop_terminates:
  assumes fin: "finite G"
  shows "determined G board ks \<Longrightarrow> \<exists>r. subset_loop ks i j made = Some r"
proof (induction "(ks, i, j, made)" arbitrary: ks i j made
    rule: wf_induct_rule[OF wf_measures[of
      "[\<lambda>(ks, i, j, made). card (Pow G - cells ` set ks),
        \<lambda>(ks, i, j, made). if made then 1 else 0,
        \<lambda>(ks, i, j, made). length ks - i,
        \<lambda>(ks, i, j, made). length ks - j]"]])
  case 1
  note IH = "1.hyps" and det = "1.prems"
  show ?case
  proof (cases "i < length ks")
    case i: True
    show ?thesis
    proof (cases "j < length ks")
      case j: True
      show ?thesis
      proof (cases "infers ks (ks ! i) (ks ! j)")
        case True
        from determined_append[OF fin det i j True]
        have "\<exists>r. subset_loop (ks @ [new_inference (ks ! i) (ks ! j)]) i (j + 1) True = Some r"
          by (intro IH) simp_all
        then show ?thesis using i j True by (subst subset_loop_unfold) simp
      next
        case False
        have "\<exists>r. subset_loop ks i (j + 1) made = Some r"
          using det j by (intro IH) auto
        then show ?thesis using i j False by (subst subset_loop_unfold) simp
      qed
    next
      case j: False
      have "\<exists>r. subset_loop ks (i + 1) 0 made = Some r"
        using det i by (intro IH) auto
      then show ?thesis using i j by (subst subset_loop_unfold) simp
    qed
  next
    case i: False
    show ?thesis
    proof (cases made)
      case True
      have "\<exists>r. subset_loop ks 0 0 False = Some r"
        using det True by (intro IH) auto
      then show ?thesis using i True by (subst subset_loop_unfold) simp
    next
      case False
      then show ?thesis using i by (subst subset_loop_unfold) simp
    qed
  qed
qed

lemma consistent_returns:
  assumes "consistent board st" and "truthful board st c n"
  shows "\<exists>st'. add_knowledge st c n = Some st'"
proof -
  let ?st1 = "extraction (observe st c n)"
  have "consistent board ?st1"
    by (rule extraction_invariant[where I = "consistent board"])
      (use assms in \<open>auto intro: consistent_observe consistent_mark_safe consistent_mark_mine\<close>)
  then have "determined {x. in_bounds ?st1 x} board (knowledge ?st1)"
    by (auto simp: consistent_def determined_def)
  from subset_loop_terminates[OF finite_in_bounds this]
  obtain r where "subset_loop (knowledge ?st1) 0 0 False = Some r" by blast
  then show ?thesis by (simp add: add_knowledge_def Let_def)
qed

text \<open>
  Two observations of the one cell of a board with a single cell, with the counts 1 and 2,
  store the sentences \<open>{} = 1\<close> and \<open>{} = 2\<close>. From them the loop derives \<open>{} = -1\<close>,
  then ever larger and ever smaller counts, and no pass ends without a new sentence.
\<close>

lemma clashing_infers:
  assumes "clashing ks"
  shows "\<exists>s \<in> set ks. \<exists>p \<in> set ks. infers ks s p"
proof -
  let ?C = "count ` set ks"
  have fin: "finite ?C" by simp
  have one: "\<lparr>cells = {}, count = 1\<rparr> \<in> set ks" and two: "\<lparr>cells = {}, count = 2\<rparr> \<in> set ks"
    and empty: "\<And>s. s \<in> set ks \<Longrightarrow> cells s = {}" and nz: "\<And>s. s \<in> set ks \<Longrightarrow> count s \<noteq> 0"
    using assms by (auto simp: clashing_def)
  have ne: "?C \<noteq> {}" using one by auto
  have two_in: "2 \<in> ?C" using two by force
  show ?thesis
  proof (cases "Min ?C < 0")
    case True
    obtain sa where sa: "sa \<in> set ks" "count sa = Max ?C"
      using Max_in[OF fin ne] by auto
    obtain sb where sb: "sb \<in> set ks" "count sb = Min ?C"
      using Min_in[OF fin ne] by auto
    have big: "2 \<le> Max ?C" using Max_ge[OF fin two_in] .
    have "count sa - count sb \<notin> ?C"
    proof
      assume "count sa - count sb \<in> ?C"
      then have "count sa - count sb \<le> Max ?C" using Max_ge[OF fin] by blast
      with sa sb True show False by simp
    qed
    then have "new_inference sa sb \<notin> set ks"
      by (force simp: new_inference_def Sentence_def)
    moreover have "sa \<noteq> sb" using sa sb True big by auto
    ultimately have "infers ks sa sb"
      using sa(1) sb(1) empty[of sa] empty[of sb] nz[of sa] nz[of sb] by (simp add: infers_def)
    with sa sb show ?thesis by blast
  next
    case False
    have "- 1 \<notin> ?C"
    proof
      assume "- 1 \<in> ?C"
      then have "Min ?C \<le> - 1" using Min_le[OF fin] by blast
      with False show False by simp
    qed
    then have "new_inference \<lparr>cells = {}, count = 1\<rparr> \<lparr>cells = {}, count = 2\<rparr> \<notin> set ks"
      by (force simp: new_inference_def Sentence_def)
    then have "infers ks \<lparr>cells = {}, count = 1\<rparr> \<lparr>cells = {}, count = 2\<rparr>"
      by (simp add: infers_def)
    with one two show ?thesis by blast
  qed
qed

lemma clashing_pending: "clashing ks \<Longrightarrow> pending ks 0 0"
proof -
  assume "clashing ks"
  then obtain s p where "s \<in> set ks" "p \<in> set ks" "infers ks s p"
    using clashing_infers by blast
  then obtain a b where "a < length ks" "b < length ks" "infers ks (ks ! a) (ks ! b)"
    by (metis in_set_conv_nth)
  then show ?thesis unfolding pending_def by (intro exI[of _ a] exI[of _ b]) auto
qed

lemma clashing_append:
  assumes "clashing ks" "i < length ks" "j < length ks" "infers ks (ks ! i) (ks ! j)"
  shows "clashing (ks @ [new_inference (ks ! i) (ks ! j)])"
proof -
  have e: "cells (ks ! i) = {}" "cells (ks ! j) = {}"
    using assms by (auto simp: clashing_def)
  have "ks ! i \<noteq> ks ! j" using assms(4) by (simp add: infers_def)
  with e have "count (ks ! i) \<noteq> count (ks ! j)" by (auto intro: sentence.equality)
  with assms(1) e show ?thesis by (auto simp: clashing_def new_inference_def Sentence_def)
qed

lemma subset_loop_never_exits:
  assumes "subset_loop ks i j made = Some r"
  shows "\<not> (clashing ks \<and> (made \<or> pending ks i j))"
  using assms
proof (induction rule: subset_loop_induct)
  case (append ks i j made r)
  then show ?case using clashing_append by blast
next
  case (skip ks i j made r)
  have "pending ks i (j + 1)" if "pending ks i j"
  proof -
    from that obtain a b where ab: "a < length ks" "b < length ks" "i < a \<or> (i = a \<and> j \<le> b)"
      "infers ks (ks ! a) (ks ! b)" unfolding pending_def by blast
    with skip(3) have "\<not> (a = i \<and> b = j)" by auto
    with ab have "i < a \<or> (i = a \<and> j + 1 \<le> b)" by auto
    with ab show ?thesis unfolding pending_def by blast
  qed
  with skip show ?case by blast
next
  case (next_sentence ks i j made r)
  have "pending ks (i + 1) 0" if "pending ks i j"
  proof -
    from that obtain a b where ab: "a < length ks" "b < length ks" "i < a \<or> (i = a \<and> j \<le> b)"
      "infers ks (ks ! a) (ks ! b)" unfolding pending_def by blast
    with next_sentence(2) have "i + 1 < a \<or> (i + 1 = a \<and> 0 \<le> b)" by auto
    with ab show ?thesis unfolding pending_def by blast
  qed
  with next_sentence show ?case by blast
next
  case (restart ks i j r)
  then show ?case using clashing_pending by blast
next
  case (exit ks i j)
  then show ?case by (auto simp: pending_def)
qed

lemma subset_loop_clash:
  "subset_loop [\<lparr>cells = {}, count = 1\<rparr>, \<lparr>cells = {}, count = 2\<rparr>] 0 0 False = None"
proof -
  let ?ks = "[\<lparr>cells = {}, count = 1\<rparr>, \<lparr>cells = {}, count = 2\<rparr>]"
  have c: "clashing ?ks" by (simp add: clashing_def)
  then have "pending ?ks 0 0" by (rule clashing_pending)
  with c have "subset_loop ?ks 0 0 False \<noteq> Some r" for r
    using subset_loop_never_exits by blast
  then show ?thesis by (cases "subset_loop ?ks 0 0 False") auto
qed

lemma eval_clash:
  "extraction (observe \<lparr>height = 1, width = 1, moves_made = {(0, 0)}, mines = {}, safes = {(0, 0)},
           knowledge = [\<lparr>cells = {}, count = 1\<rparr>]\<rparr> (0, 0) 2) =
   \<lparr>height = 1, width = 1, moves_made = {(0, 0)}, mines = {}, safes = {(0, 0)},
           knowledge = [\<lparr>cells = {}, count = 1\<rparr>, \<lparr>cells = {}, count = 2\<rparr>]\<rparr>"
  by code_simp

theorem termination_counterexample:
  "add_knowledge (init 1 1) (0, 0) 1 =
     Some \<lparr>height = 1, width = 1, moves_made = {(0, 0)}, mines = {}, safes = {(0, 0)},
           knowledge = [\<lparr>cells = {}, count = 1\<rparr>]\<rparr> \<and>
   add_knowledge
     \<lparr>height = 1, width = 1, moves_made = {(0, 0)}, mines = {}, safes = {(0, 0)},
      knowledge = [\<lparr>cells = {}, count = 1\<rparr>]\<rparr> (0, 0) 2 = None"
proof
  show "add_knowledge (init 1 1) (0, 0) 1 =
     Some \<lparr>height = 1, width = 1, moves_made = {(0, 0)}, mines = {}, safes = {(0, 0)},
           knowledge = [\<lparr>cells = {}, count = 1\<rparr>]\<rparr>"
    by code_simp
  show "add_knowledge
     \<lparr>height = 1, width = 1, moves_made = {(0, 0)}, mines = {}, safes = {(0, 0)},
      knowledge = [\<lparr>cells = {}, count = 1\<rparr>]\<rparr> (0, 0) 2 = None"
    unfolding add_knowledge_def Let_def eval_clash by (simp add: subset_loop_clash)
qed

text \<open>
  Claim C1, as the code has it. When all observations are the ones a game gives (the
  observed cell is in the grid and not a mine, and the count is the number of mines
  around it), then in every state reached every further such call of \<open>add_knowledge\<close>
  returns: the subset loop reaches a pass that appends nothing.
\<close>

theorem truthful_observation_returns:
  assumes "reachable (truthful board) h w st" and "truthful board st c n"
  shows "\<exists>st'. add_knowledge st c n = Some st'"
proof -
  have "consistent board st"
    using assms(1)
  proof (rule reachable_invariant)
    show "consistent board (init h w)" by (simp add: consistent_def init_def)
  qed (rule consistent_step)
  then show ?thesis using assms(2) by (rule consistent_returns)
qed

lemma truthful_1x3_first: "truthful {(0, 2)} (init 1 3) (0, 1) 1"
  by code_simp

lemma truthful_1x3_second:
  "truthful {(0, 2)}
     \<lparr>height = 1, width = 3, moves_made = {(0, 1)}, mines = {}, safes = {(0, 1)},
      knowledge = [\<lparr>cells = {(0, 0), (0, 2)}, count = 1\<rparr>]\<rparr> (0, 0) 0"
  by code_simp

lemma reach_truthful_1x3:
  "reachable (truthful {(0, 2)}) 1 3
     \<lparr>height = 1, width = 3, moves_made = {(0, 1)}, mines = {}, safes = {(0, 1)},
      knowledge = [\<lparr>cells = {(0, 0), (0, 2)}, count = 1\<rparr>]\<rparr>"
  by (rule reachable.observation[where ok = "truthful {(0, 2)}",
        OF reachable.start truthful_1x3_first eval_1x3_first])

theorem truthful_observation_returns_witness:
  "reachable (truthful {(0, 2)}) 1 3
     \<lparr>height = 1, width = 3, moves_made = {(0, 1)}, mines = {}, safes = {(0, 1)},
      knowledge = [\<lparr>cells = {(0, 0), (0, 2)}, count = 1\<rparr>]\<rparr> \<and>
   truthful {(0, 2)}
     \<lparr>height = 1, width = 3, moves_made = {(0, 1)}, mines = {}, safes = {(0, 1)},
      knowledge = [\<lparr>cells = {(0, 0), (0, 2)}, count = 1\<rparr>]\<rparr> (0, 0) 0 \<and>
   (\<exists>st'. add_knowledge
     \<lparr>height = 1, width = 3, moves_made = {(0, 1)}, mines = {}, safes = {(0, 1)},
      knowledge = [\<lparr>cells = {(0, 0), (0, 2)}, count = 1\<rparr>]\<rparr> (0, 0) 0 = Some st')"
  using truthful_observation_returns[OF reach_truthful_1x3 truthful_1x3_second]
    reach_truthful_1x3 truthful_1x3_second
  by simp

section \<open>The subset rule\<close>

lemma eval_2x3_two:
  "run (init 2 3) [((1, 2), 1), ((0, 2), 1)] =
     Some \<lparr>height = 2, width = 3, moves_made = {(0, 2), (1, 2)}, mines = {},
           safes = {(0, 2), (1, 2)},
           knowledge = [\<lparr>cells = {(0, 1), (1, 1)}, count = 1\<rparr>,
                        \<lparr>cells = {(0, 1), (1, 1)}, count = 1\<rparr>]\<rparr>"
  by code_simp

lemma eval_2x3_observe:
  "extraction (observe
     \<lparr>height = 2, width = 3, moves_made = {(0, 2), (1, 2)}, mines = {},
      safes = {(0, 2), (1, 2)},
      knowledge = [\<lparr>cells = {(0, 1), (1, 1)}, count = 1\<rparr>,
                   \<lparr>cells = {(0, 1), (1, 1)}, count = 1\<rparr>]\<rparr> (0, 0) 1) =
   \<lparr>height = 2, width = 3, moves_made = {(0, 0), (0, 2), (1, 2)}, mines = {},
      safes = {(0, 0), (0, 2), (1, 2)},
      knowledge = [\<lparr>cells = {(0, 1), (1, 1)}, count = 1\<rparr>,
                   \<lparr>cells = {(0, 1), (1, 1)}, count = 1\<rparr>,
                   \<lparr>cells = {(0, 1), (1, 1), (1, 0)}, count = 1\<rparr>]\<rparr>"
  by code_simp

lemma eval_2x3_third:
  "add_knowledge
     \<lparr>height = 2, width = 3, moves_made = {(0, 2), (1, 2)}, mines = {},
      safes = {(0, 2), (1, 2)},
      knowledge = [\<lparr>cells = {(0, 1), (1, 1)}, count = 1\<rparr>,
                   \<lparr>cells = {(0, 1), (1, 1)}, count = 1\<rparr>]\<rparr> (0, 0) 1 =
   Some \<lparr>height = 2, width = 3, moves_made = {(0, 0), (0, 2), (1, 2)}, mines = {},
      safes = {(0, 0), (0, 2), (1, 2)},
      knowledge = [\<lparr>cells = {(0, 1), (1, 1)}, count = 1\<rparr>,
                   \<lparr>cells = {(0, 1), (1, 1)}, count = 1\<rparr>,
                   \<lparr>cells = {(0, 1), (1, 1), (1, 0)}, count = 1\<rparr>,
                   \<lparr>cells = {(1, 0)}, count = 0\<rparr>]\<rparr>"
  by code_simp

lemma eval_2x3_fourth:
  "add_knowledge
    \<lparr>height = 2, width = 3, moves_made = {(0, 0), (0, 2), (1, 2)}, mines = {},
      safes = {(0, 0), (0, 2), (1, 2)},
      knowledge = [\<lparr>cells = {(0, 1), (1, 1)}, count = 1\<rparr>,
                   \<lparr>cells = {(0, 1), (1, 1)}, count = 1\<rparr>,
                   \<lparr>cells = {(0, 1), (1, 1), (1, 0)}, count = 1\<rparr>,
                   \<lparr>cells = {(1, 0)}, count = 0\<rparr>]\<rparr> (0, 1) 1 =
   Some \<lparr>height = 2, width = 3, moves_made = {(0, 0), (0, 1), (0, 2), (1, 2)},
      mines = {(1, 1)}, safes = {(0, 0), (0, 1), (0, 2), (1, 0), (1, 2)},
      knowledge = [\<lparr>cells = {}, count = 0\<rparr>, \<lparr>cells = {}, count = 0\<rparr>,
                   \<lparr>cells = {}, count = 0\<rparr>, \<lparr>cells = {}, count = 0\<rparr>,
                   \<lparr>cells = {}, count = 0\<rparr>]\<rparr>"
  by code_simp

text \<open>
  Claim C3. With \<open>{a, b, c} = 1\<close> and \<open>{a, b} = 1\<close> stored, the call is to derive
  \<open>{c} = 0\<close> and the solver is to know \<open>c\<close> as safe; step 4 of the docstring of
  \<open>add_knowledge\<close> asks it to mark every cell whose value can be concluded from the
  knowledge base. The code marks cells only before it derives sentences. On a board of
  two rows and three columns whose one mine is \<open>(1, 1)\<close> the cells \<open>(1, 2)\<close>, \<open>(0, 2)\<close>
  and \<open>(0, 0)\<close> all have the count 1. The third of these observations finds
  \<open>{(0, 1), (1, 1), (1, 0)} = 1\<close> and \<open>{(0, 1), (1, 1)} = 1\<close> stored and derives
  \<open>{(1, 0)} = 0\<close>, and the call returns with \<open>(1, 0)\<close> not in \<open>safes\<close>:
  \<open>make_safe_move\<close> has no move to offer.
\<close>

theorem derived_cell_unmarked:
  "nearby_mines 2 3 {(1, 1)} (1, 2) = 1 \<and>
   nearby_mines 2 3 {(1, 1)} (0, 2) = 1 \<and>
   nearby_mines 2 3 {(1, 1)} (0, 0) = 1 \<and>
   run (init 2 3) [((1, 2), 1), ((0, 2), 1), ((0, 0), 1)] =
     Some \<lparr>height = 2, width = 3, moves_made = {(0, 0), (0, 2), (1, 2)}, mines = {},
      safes = {(0, 0), (0, 2), (1, 2)},
      knowledge = [\<lparr>cells = {(0, 1), (1, 1)}, count = 1\<rparr>,
                   \<lparr>cells = {(0, 1), (1, 1)}, count = 1\<rparr>,
                   \<lparr>cells = {(0, 1), (1, 1), (1, 0)}, count = 1\<rparr>,
                   \<lparr>cells = {(1, 0)}, count = 0\<rparr>]\<rparr> \<and>
   (1, 0) \<notin> {(0::int, 0::int), (0, 2), (1, 2)} \<and>
   fst (make_safe_move [(0, 0), (0, 2), (1, 2)]
     \<lparr>height = 2, width = 3, moves_made = {(0, 0), (0, 2), (1, 2)}, mines = {},
      safes = {(0, 0), (0, 2), (1, 2)},
      knowledge = [\<lparr>cells = {(0, 1), (1, 1)}, count = 1\<rparr>,
                   \<lparr>cells = {(0, 1), (1, 1)}, count = 1\<rparr>,
                   \<lparr>cells = {(0, 1), (1, 1), (1, 0)}, count = 1\<rparr>,
                   \<lparr>cells = {(1, 0)}, count = 0\<rparr>]\<rparr>) = None"
  by code_simp

lemma consistent_safe_cell:
  assumes "consistent board st" and "\<lparr>cells = {c}, count = 0\<rparr> \<in> set (knowledge st)"
  shows "c \<notin> board"
proof -
  from assms have "(0::int) = int (card ({c} \<inter> board))" by (force simp: consistent_def)
  then show ?thesis by auto
qed

text \<open>
  The derivation itself is made whenever the two sentences are stored as the subset loop
  starts and the call returns. The cell \<open>c\<close> is marked by the call after it: as safe or
  as a mine, and as safe when the knowledge agrees with the mines of a board and the
  next observation is one that this board gives.
\<close>

lemma subset_rule_next_call:
  assumes call: "add_knowledge st x n = Some st1"
    and A: "\<lparr>cells = {a, b, c}, count = 1\<rparr> \<in> set (knowledge (extraction (observe st x n)))"
    and B: "\<lparr>cells = {a, b}, count = 1\<rparr> \<in> set (knowledge (extraction (observe st x n)))"
    and c: "c \<noteq> a" "c \<noteq> b"
  shows "\<lparr>cells = {c}, count = 0\<rparr> \<in> set (knowledge st1) \<and>
         (\<forall>y m st2. add_knowledge st1 y m = Some st2 \<longrightarrow>
            (c \<in> safes st2 \<or> c \<in> mines st2) \<and>
            (consistent board st1 \<and> truthful board st1 y m \<longrightarrow> c \<in> safes st2))"
proof -
  from call obtain ks' where
    loop: "subset_loop (knowledge (extraction (observe st x n))) 0 0 False = Some ks'"
    and st1: "st1 = (extraction (observe st x n))\<lparr>knowledge := ks'\<rparr>"
    by (rule add_knowledge_SomeD)
  have "eligible \<lparr>cells = {a, b, c}, count = 1\<rparr> \<lparr>cells = {a, b}, count = 1\<rparr>"
    using c by (auto simp: eligible_def)
  from subset_loop_closed[OF loop A B this]
  have "new_inference \<lparr>cells = {a, b, c}, count = 1\<rparr> \<lparr>cells = {a, b}, count = 1\<rparr> \<in> set ks'" .
  moreover have "{a, b, c} - {a, b} = {c}" using c by auto
  ultimately have derived: "\<lparr>cells = {c}, count = 0\<rparr> \<in> set (knowledge st1)"
    by (simp add: new_inference_def Sentence_def st1)
  have "c \<in> safes st2"
    if next_call: "add_knowledge st1 y m = Some st2"
      and con: "consistent board st1" and tr: "truthful board st1 y m" for y m st2
  proof -
    have "mines st2 \<subseteq> board"
      using consistent_step[OF con tr next_call] by (simp add: consistent_def)
    with consistent_safe_cell[OF con derived] have "c \<notin> mines st2" by auto
    with next_call_resolves[OF derived next_call] show ?thesis by simp
  qed
  with derived next_call_resolves[OF derived] show ?thesis by blast
qed

section \<open>The extraction pass\<close>

text \<open>
  The pass acts on a sentence as it finds it. On a board of two rows and two columns,
  after the observations of \<open>(0, 0)\<close> with count 2 and of \<open>(0, 1)\<close> with count 0, the pass
  starts with \<open>{(1, 0), (1, 1)} = 2\<close> and \<open>{(1, 0), (1, 1)} = 0\<close>; the first sentence makes
  both cells mines, and the cells of the second, whose count was 0, are not in \<open>safes\<close>.
\<close>

theorem extraction_counterexample:
  "add_knowledge (init 2 2) (0, 0) 2 =
     Some \<lparr>height = 2, width = 2, moves_made = {(0, 0)}, mines = {}, safes = {(0, 0)},
           knowledge = [\<lparr>cells = {(0, 1), (1, 0), (1, 1)}, count = 2\<rparr>]\<rparr> \<and>
   observe \<lparr>height = 2, width = 2, moves_made = {(0, 0)}, mines = {}, safes = {(0, 0)},
           knowledge = [\<lparr>cells = {(0, 1), (1, 0), (1, 1)}, count = 2\<rparr>]\<rparr> (0, 1) 0 =
     \<lparr>height = 2, width = 2, moves_made = {(0, 0), (0, 1)}, mines = {},
      safes = {(0, 0), (0, 1)},
      knowledge = [\<lparr>cells = {(1, 0), (1, 1)}, count = 2\<rparr>,
                   \<lparr>cells = {(1, 0), (1, 1)}, count = 0\<rparr>]\<rparr> \<and>
   extraction
     \<lparr>height = 2, width = 2, moves_made = {(0, 0), (0, 1)}, mines = {},
      safes = {(0, 0), (0, 1)},
      knowledge = [\<lparr>cells = {(1, 0), (1, 1)}, count = 2\<rparr>,
                   \<lparr>cells = {(1, 0), (1, 1)}, count = 0\<rparr>]\<rparr> =
     \<lparr>height = 2, width = 2, moves_made = {(0, 0), (0, 1)}, mines = {(1, 0), (1, 1)},
      safes = {(0, 0), (0, 1)},
      knowledge = [\<lparr>cells = {}, count = 0\<rparr>, \<lparr>cells = {}, count = - 2\<rparr>]\<rparr>"
  by code_simp

text \<open>
  Claim C4, as the code has it. After the extraction pass, the cells that a stored
  sentence has when the pass reaches it are all in \<open>safes\<close> if its count is then 0, and
  all in \<open>mines\<close> if its count is then positive and equal to their number. When the
  knowledge agrees with the mines of a board, the same holds for the cells and the count
  that the sentence has when the pass starts.
\<close>

theorem extraction_sound:
  assumes "i < length (knowledge st)"
  shows "(finite (cells (knowledge (examined st i) ! i)) \<longrightarrow>
           (count (knowledge (examined st i) ! i) = 0 \<longrightarrow>
              cells (knowledge (examined st i) ! i) \<subseteq> safes (extraction st)) \<and>
           (count (knowledge (examined st i) ! i) =
              int (card (cells (knowledge (examined st i) ! i))) \<and>
            0 < count (knowledge (examined st i) ! i) \<longrightarrow>
              cells (knowledge (examined st i) ! i) \<subseteq> mines (extraction st))) \<and>
         (consistent board st \<longrightarrow>
           (count (knowledge st ! i) = 0 \<longrightarrow> cells (knowledge st ! i) \<subseteq> safes (extraction st)) \<and>
           (count (knowledge st ! i) = int (card (cells (knowledge st ! i))) \<and>
            0 < count (knowledge st ! i) \<longrightarrow> cells (knowledge st ! i) \<subseteq> mines (extraction st)))"
  using examined_sound[OF assms] consistent_sound[OF _ assms] by blast

lemma eval_1x3_observe:
  "observe \<lparr>height = 1, width = 3, moves_made = {(0, 1)}, mines = {}, safes = {(0, 1)},
           knowledge = [\<lparr>cells = {(0, 0), (0, 2)}, count = 1\<rparr>]\<rparr> (0, 0) 0 =
   \<lparr>height = 1, width = 3, moves_made = {(0, 0), (0, 1)}, mines = {}, safes = {(0, 0), (0, 1)},
           knowledge = [\<lparr>cells = {(0, 2)}, count = 1\<rparr>, \<lparr>cells = {}, count = 0\<rparr>]\<rparr>"
  by code_simp

theorem extraction_sound_witness:
  "(0::nat) < length (knowledge
      \<lparr>height = 1, width = 3, moves_made = {(0, 0), (0, 1)}, mines = {},
       safes = {(0, 0), (0, 1)},
       knowledge = [\<lparr>cells = {(0, 2)}, count = 1\<rparr>, \<lparr>cells = {}, count = 0\<rparr>]\<rparr>) \<and>
   consistent {(0, 2)}
      \<lparr>height = 1, width = 3, moves_made = {(0, 0), (0, 1)}, mines = {},
       safes = {(0, 0), (0, 1)},
       knowledge = [\<lparr>cells = {(0, 2)}, count = 1\<rparr>, \<lparr>cells = {}, count = 0\<rparr>]\<rparr> \<and>
   {(0, 2)} \<subseteq> mines (extraction
      \<lparr>height = 1, width = 3, moves_made = {(0, 0), (0, 1)}, mines = {},
       safes = {(0, 0), (0, 1)},
       knowledge = [\<lparr>cells = {(0, 2)}, count = 1\<rparr>, \<lparr>cells = {}, count = 0\<rparr>]\<rparr>)"
proof -
  let ?st = "\<lparr>height = 1, width = 3, moves_made = {(0, 0), (0, 1)}, mines = {},
       safes = {(0, 0), (0, 1)},
       knowledge = [\<lparr>cells = {(0, 2)}, count = 1\<rparr>, \<lparr>cells = {}, count = 0\<rparr>]\<rparr>"
  have len: "0 < length (knowledge ?st)" by simp
  have con: "consistent {(0, 2)} ?st" by (simp add: consistent_def in_bounds_def)
  from extraction_sound[OF len, of "{(0, 2)}"] con len show ?thesis by simp
qed

section \<open>The sentence of an observation, across the call\<close>

lemma persists_refl: "persists (knowledge st) st"
  by (simp add: persists_def shrunk_refl)

lemma add_knowledge_persists:
  assumes "add_knowledge st c n = Some st'"
  shows "persists (knowledge (observe st c n)) st'"
  using assms
proof (rule add_knowledge_invariant)
  show "persists (knowledge (observe st c n)) (observe st c n)" by (rule persists_refl)
next
  fix st2 i x assume "persists (knowledge (observe st c n)) st2"
  then show "persists (knowledge (observe st c n)) (mark_safe st2 x)"
    unfolding persists_def mark_safe_def using shrunk_trans[OF _ shrunk_mark_safe]
    by auto
next
  fix st2 i x assume "persists (knowledge (observe st c n)) st2"
  then show "persists (knowledge (observe st c n)) (mark_mine st2 x)"
    unfolding persists_def mark_mine_def using shrunk_trans[OF _ shrunk_mark_mine]
    by auto
next
  fix st2 s p assume "persists (knowledge (observe st c n)) st2"
  then show "persists (knowledge (observe st c n))
      (st2\<lparr>knowledge := knowledge st2 @ [new_inference s p]\<rparr>)"
    by (auto simp: persists_def nth_append)
qed

lemma spec_observation_last: "spec_observation st c n = last (knowledge (observe st c n))"
  by (simp add: knowledge_observe spec_observation_def)

text \<open>
  A call can append more than one sentence, and the sentence of the observation need not
  be stored as it was built when the call returns. The third observation of the game
  above takes the list from two sentences to four. On a board of one row and two columns
  the first observation appends \<open>{(0, 1)} = 1\<close>, and the call returns with \<open>{} = 0\<close>
  in its place.
\<close>

theorem observation_counterexample:
  "add_knowledge
     \<lparr>height = 2, width = 3, moves_made = {(0, 2), (1, 2)}, mines = {},
      safes = {(0, 2), (1, 2)},
      knowledge = [\<lparr>cells = {(0, 1), (1, 1)}, count = 1\<rparr>,
                   \<lparr>cells = {(0, 1), (1, 1)}, count = 1\<rparr>]\<rparr> (0, 0) 1 =
   Some \<lparr>height = 2, width = 3, moves_made = {(0, 0), (0, 2), (1, 2)}, mines = {},
      safes = {(0, 0), (0, 2), (1, 2)},
      knowledge = [\<lparr>cells = {(0, 1), (1, 1)}, count = 1\<rparr>,
                   \<lparr>cells = {(0, 1), (1, 1)}, count = 1\<rparr>,
                   \<lparr>cells = {(0, 1), (1, 1), (1, 0)}, count = 1\<rparr>,
                   \<lparr>cells = {(1, 0)}, count = 0\<rparr>]\<rparr> \<and>
   observe (init 1 2) (0, 0) 1 =
     \<lparr>height = 1, width = 2, moves_made = {(0, 0)}, mines = {}, safes = {(0, 0)},
      knowledge = [\<lparr>cells = {(0, 1)}, count = 1\<rparr>]\<rparr> \<and>
   add_knowledge (init 1 2) (0, 0) 1 =
     Some \<lparr>height = 1, width = 2, moves_made = {(0, 0)}, mines = {(0, 1)}, safes = {(0, 0)},
           knowledge = [\<lparr>cells = {}, count = 0\<rparr>]\<rparr>"
  by code_simp

text \<open>
  Claim C6, as the code has it. Every call of \<open>add_knowledge\<close> puts the cell into
  \<open>moves_made\<close> and \<open>safes\<close>, removes it from the stored sentences and appends the one
  sentence of the observation, whatever its cell set, the empty one included; the
  extraction pass and the subset loop then run on this list, and they can take cells
  from the sentence and append further sentences. When the call returns, the list is
  longer than before, and the sentence at the first new position has a subset of the
  cells of the sentence of the observation and a count that is not larger, and is that
  sentence unless it lost a cell.
\<close>

theorem observation_appended:
  "add_knowledge st c n =
     (let st1 = extraction
            (st\<lparr>moves_made := insert c (moves_made st),
                safes := insert c (safes st),
                knowledge := map (\<lambda>s. Sentence_mark_safe s c) (knowledge st) @
                             [spec_observation st c n]\<rparr>)
      in map_option (\<lambda>ks. st1\<lparr>knowledge := ks\<rparr>) (subset_loop (knowledge st1) 0 0 False)) \<and>
   (add_knowledge st c n = Some st' \<longrightarrow>
      length (knowledge st) < length (knowledge st') \<and>
      cells (knowledge st' ! length (knowledge st)) \<subseteq> cells (spec_observation st c n) \<and>
      count (knowledge st' ! length (knowledge st)) \<le> count (spec_observation st c n) \<and>
      (cells (knowledge st' ! length (knowledge st)) = cells (spec_observation st c n) \<longrightarrow>
         knowledge st' ! length (knowledge st) = spec_observation st c n))"
proof (intro conjI impI)
  show "add_knowledge st c n =
     (let st1 = extraction
            (st\<lparr>moves_made := insert c (moves_made st),
                safes := insert c (safes st),
                knowledge := map (\<lambda>s. Sentence_mark_safe s c) (knowledge st) @
                             [spec_observation st c n]\<rparr>)
      in map_option (\<lambda>ks. st1\<lparr>knowledge := ks\<rparr>) (subset_loop (knowledge st1) 0 0 False))"
    unfolding add_knowledge_def observe_eq spec_observation_def ..
next
  assume call: "add_knowledge st c n = Some st'"
  let ?i = "length (knowledge st)"
  have nth: "knowledge (observe st c n) ! ?i = spec_observation st c n"
    and len: "length (knowledge (observe st c n)) = Suc ?i"
    by (simp_all add: knowledge_observe spec_observation_def nth_append)
  from add_knowledge_persists[OF call]
  have le: "Suc ?i \<le> length (knowledge st')"
    and sh: "shrunk (spec_observation st c n) (knowledge st' ! ?i)"
    unfolding persists_def len using nth by auto
  from le show "?i < length (knowledge st')" by simp
  from sh show "cells (knowledge st' ! ?i) \<subseteq> cells (spec_observation st c n)"
    and "count (knowledge st' ! ?i) \<le> count (spec_observation st c n)"
    by (simp_all add: shrunk_def)
  assume "cells (knowledge st' ! ?i) = cells (spec_observation st c n)"
  with sh show "knowledge st' ! ?i = spec_observation st c n"
    by (auto simp: shrunk_def intro: sentence.equality)
qed

lemma eval_2x3_spec:
  "spec_observation
    \<lparr>height = 2, width = 3, moves_made = {(0, 0), (0, 2), (1, 2)}, mines = {},
      safes = {(0, 0), (0, 2), (1, 2)},
      knowledge = [\<lparr>cells = {(0, 1), (1, 1)}, count = 1\<rparr>,
                   \<lparr>cells = {(0, 1), (1, 1)}, count = 1\<rparr>,
                   \<lparr>cells = {(0, 1), (1, 1), (1, 0)}, count = 1\<rparr>,
                   \<lparr>cells = {(1, 0)}, count = 0\<rparr>]\<rparr> (0, 1) 1 =
   \<lparr>cells = {(1, 0), (1, 1)}, count = 1\<rparr>"
  unfolding spec_observation_last by code_simp

theorem observation_appended_witness:
  "add_knowledge
    \<lparr>height = 2, width = 3, moves_made = {(0, 0), (0, 2), (1, 2)}, mines = {},
      safes = {(0, 0), (0, 2), (1, 2)},
      knowledge = [\<lparr>cells = {(0, 1), (1, 1)}, count = 1\<rparr>,
                   \<lparr>cells = {(0, 1), (1, 1)}, count = 1\<rparr>,
                   \<lparr>cells = {(0, 1), (1, 1), (1, 0)}, count = 1\<rparr>,
                   \<lparr>cells = {(1, 0)}, count = 0\<rparr>]\<rparr> (0, 1) 1 =
   Some \<lparr>height = 2, width = 3, moves_made = {(0, 0), (0, 1), (0, 2), (1, 2)},
      mines = {(1, 1)}, safes = {(0, 0), (0, 1), (0, 2), (1, 0), (1, 2)},
      knowledge = [\<lparr>cells = {}, count = 0\<rparr>, \<lparr>cells = {}, count = 0\<rparr>,
                   \<lparr>cells = {}, count = 0\<rparr>, \<lparr>cells = {}, count = 0\<rparr>,
                   \<lparr>cells = {}, count = 0\<rparr>]\<rparr> \<and>
   spec_observation
    \<lparr>height = 2, width = 3, moves_made = {(0, 0), (0, 2), (1, 2)}, mines = {},
      safes = {(0, 0), (0, 2), (1, 2)},
      knowledge = [\<lparr>cells = {(0, 1), (1, 1)}, count = 1\<rparr>,
                   \<lparr>cells = {(0, 1), (1, 1)}, count = 1\<rparr>,
                   \<lparr>cells = {(0, 1), (1, 1), (1, 0)}, count = 1\<rparr>,
                   \<lparr>cells = {(1, 0)}, count = 0\<rparr>]\<rparr> (0, 1) 1 =
     \<lparr>cells = {(1, 0), (1, 1)}, count = 1\<rparr> \<and>
   (4::nat) < 5 \<and>
   cells \<lparr>cells = {}, count = 0\<rparr> \<subseteq> cells \<lparr>cells = {(1::int, 0::int), (1, 1)}, count = 1\<rparr> \<and>
   count \<lparr>cells = {}, count = 0\<rparr> \<le> count \<lparr>cells = {(1::int, 0::int), (1, 1)}, count = 1\<rparr>"
proof -
  let ?st = "\<lparr>height = 2, width = 3, moves_made = {(0, 0), (0, 2), (1, 2)}, mines = {},
      safes = {(0, 0), (0, 2), (1, 2)},
      knowledge = [\<lparr>cells = {(0, 1), (1, 1)}, count = 1\<rparr>,
                   \<lparr>cells = {(0, 1), (1, 1)}, count = 1\<rparr>,
                   \<lparr>cells = {(0, 1), (1, 1), (1, 0)}, count = 1\<rparr>,
                   \<lparr>cells = {(1, 0)}, count = 0\<rparr>]\<rparr>"
  let ?st' = "\<lparr>height = 2, width = 3, moves_made = {(0, 0), (0, 1), (0, 2), (1, 2)},
      mines = {(1, 1)}, safes = {(0, 0), (0, 1), (0, 2), (1, 0), (1, 2)},
      knowledge = [\<lparr>cells = {}, count = 0\<rparr>, \<lparr>cells = {}, count = 0\<rparr>,
                   \<lparr>cells = {}, count = 0\<rparr>, \<lparr>cells = {}, count = 0\<rparr>,
                   \<lparr>cells = {}, count = 0\<rparr>]\<rparr>"
  have call: "add_knowledge ?st (0, 1) 1 = Some ?st'" by (rule eval_2x3_fourth)
  from observation_appended[of ?st "(0, 1)" 1 ?st'] call
  have "length (knowledge ?st) < length (knowledge ?st') \<and>
      cells (knowledge ?st' ! length (knowledge ?st)) \<subseteq> cells (spec_observation ?st (0, 1) 1) \<and>
      count (knowledge ?st' ! length (knowledge ?st)) \<le> count (spec_observation ?st (0, 1) 1)"
    by blast
  then show ?thesis using call eval_2x3_spec by simp
qed

end
